theory Spec2Isabelle
  imports Main "HOL-Library.AList" "HOL-Library.Log_Nat"
begin

section \<open>JavaScript values\<close>

text \<open>
  A Number is an IEEE 754 double. A finite double is represented by the rational it
  denotes; the sign of zero is not represented.
\<close>

datatype number = Finite rat | PosInfinity | NegInfinity | NaN

text \<open>
  The converter is untyped at run time: it inspects its argument with \<open>typeof\<close> and
  \<open>Array.isArray\<close>, so the model works on dynamically typed values: the values of JSON
  and \<open>undefined\<close>. An array is the list of its elements (it has no holes). An object
  is the list of its own enumerable string-keyed properties in enumeration order, which
  is what both \<open>Object.keys\<close> and \<open>for ... in\<close> see of it.
\<close>

datatype jsval =
    Undefined
  | Null
  | Bool bool
  | Num number
  | Str string
  | Arr "jsval list"
  | Obj "(string \<times> jsval) list"

text \<open>
  An object built by the converter: its own properties, in the order of their first
  assignment, and its prototype. A prototype is \<open>Object.prototype\<close> (that of the literal
  \<open>{}\<close>), \<open>null\<close>, or a value that a store under the name "__proto__" has put there.
  JavaScript enumerates keys that are array indices before the others; the list does not
  reorder them, and the statements below read the properties through their key set and
  through \<open>map_of\<close>.
\<close>

datatype 'v prototype = ObjectPrototype | NullPrototype | ValuePrototype 'v

datatype 'v object = Object (props: "(string \<times> 'v) list") (proto: "'v prototype")

text \<open>The element type of \<open>JsonSheetData\<close>: one object per data row.\<close>

type_synonym JsonRecord = "jsval object"

type_synonym JsonSheetData = "JsonRecord list object"

text \<open>
  \<open>InvalidHeaders sheet\<close> is the \<open>Error\<close> thrown by \<open>convertToJson\<close> with the message
  "Invalid or duplicate headers in sheet: sheet". \<open>TypeError\<close> is what the runtime throws
  when \<open>row.reduce\<close> is evaluated on a row that is not an array.
\<close>

datatype error = InvalidHeaders string | TypeError

fun typeof :: "jsval \<Rightarrow> string" where
  "typeof Undefined = ''undefined''"
| "typeof Null = ''object''"
| "typeof (Bool b) = ''boolean''"
| "typeof (Num n) = ''number''"
| "typeof (Str s) = ''string''"
| "typeof (Arr xs) = ''object''"
| "typeof (Obj ps) = ''object''"

text \<open>\<open>falsy v\<close> is the value of \<open>!v\<close>.\<close>

fun falsy :: "jsval \<Rightarrow> bool" where
  "falsy Undefined = True"
| "falsy Null = True"
| "falsy (Bool b) = (b = False)"
| "falsy (Num n) = (n = Finite 0 \<or> n = NaN)"
| "falsy (Str s) = (s = [])"
| "falsy (Arr xs) = False"
| "falsy (Obj ps) = False"

fun isArray :: "jsval \<Rightarrow> bool" where
  "isArray (Arr xs) = True"
| "isArray v = False"

section \<open>Characters and text\<close>

text \<open>
  A string is a list of code units; \<open>char\<close> covers the code units 0 to 255. In that
  range \<open>\d\<close> matches 0-9 only, \<open>trim\<close> removes TAB, LF, VT, FF, CR, SPACE and NBSP, and
  \<open>toLowerCase\<close> maps A-Z and the Latin-1 capitals to their small letters.
\<close>

definition isDigit :: "char \<Rightarrow> bool" where
  "isDigit c = (48 \<le> (of_char c :: nat) \<and> (of_char c :: nat) \<le> 57)"

definition digitVal :: "char \<Rightarrow> nat" where
  "digitVal c = of_char c - 48"

definition digitChar :: "nat \<Rightarrow> char" where
  "digitChar n = char_of (48 + n)"

definition isWhiteSpace :: "char \<Rightarrow> bool" where
  "isWhiteSpace c =
     (let n = (of_char c :: nat)
      in (9 \<le> n \<and> n \<le> 13) \<or> n = 32 \<or> n = 160)"

definition trim :: "string \<Rightarrow> string" where
  "trim s = rev (dropWhile isWhiteSpace (rev (dropWhile isWhiteSpace s)))"

definition lowerChar :: "char \<Rightarrow> char" where
  "lowerChar c =
     (let n = (of_char c :: nat)
      in if (65 \<le> n \<and> n \<le> 90) \<or> (192 \<le> n \<and> n \<le> 222 \<and> n \<noteq> 215)
         then char_of (n + 32) else c)"

definition toLowerCase :: "string \<Rightarrow> string" where
  "toLowerCase s = map lowerChar s"

text \<open>The value of a digit sequence read in base 10.\<close>

definition decimal :: "string \<Rightarrow> nat" where
  "decimal s = foldl (\<lambda>acc c. 10 * acc + digitVal c) 0 s"

text \<open>The decimal numeral of an array index, as \<open>for ... in\<close> yields it for an array.\<close>

fun showNat :: "nat \<Rightarrow> string" where
  "showNat n = (if n < 10 then [digitChar n] else showNat (n div 10) @ [digitChar (n mod 10)])"

declare showNat.simps [simp del]

section \<open>Numbers from text\<close>

text \<open>
  \<open>parseInt\<close> and \<open>parseFloat\<close> return the Number value of the mathematical value they
  read: the double nearest to it, ties to the even significand, and Infinity from
  \<open>2^1024 - 2^970\<close> on. \<open>toDouble n d\<close> is that double for the quotient \<open>n / d\<close> of
  naturals with \<open>d > 0\<close>: the significand has 53 bits and the least exponent is -1074.
  (The language standard lets an engine ignore digits after the twentieth significant
  one; the model reads every digit, as V8 does.)
\<close>

definition roundHalfEven :: "nat \<Rightarrow> nat \<Rightarrow> nat" where
  "roundHalfEven n d =
     (let q = n div d; r = n mod d
      in if 2 * r < d then q
         else if d < 2 * r then q + 1
         else if even q then q else q + 1)"

text \<open>\<open>floorLog2 n d\<close> is the integer part of the binary logarithm of \<open>n / d\<close>.\<close>

definition floorLog2 :: "nat \<Rightarrow> nat \<Rightarrow> int" where
  "floorLog2 n d =
     (let k = int (floorlog 2 n) - int (floorlog 2 d)
      in if (if 0 \<le> k then d * 2 ^ nat k \<le> n else d \<le> n * 2 ^ nat (- k))
         then k else k - 1)"

definition toDouble :: "nat \<Rightarrow> nat \<Rightarrow> number" where
  "toDouble n d =
     (if n = 0 then Finite 0
      else
        let e = max (floorLog2 n d - 52) (- 1074);
            m = (if e < 0 then roundHalfEven (n * 2 ^ nat (- e)) d
                 else roundHalfEven n (d * 2 ^ nat e))
        in if 971 < e then PosInfinity
           else if e = 971 \<and> m = 2 ^ 53 then PosInfinity
           else Finite (of_nat m * 2 powi e))"

text \<open>\<open>/^\d+$/.test(s)\<close>: one or more digits and nothing else.\<close>

definition isIntText :: "string \<Rightarrow> bool" where
  "isIntText s = (s \<noteq> [] \<and> list_all isDigit s)"

text \<open>
  \<open>/^\d*\.\d+$/.test(s)\<close>: the dot is not a digit, so \<open>\d*\<close> matches exactly the
  leading digits; a dot and one or more digits follow, and nothing else.
\<close>

definition isFloatText :: "string \<Rightarrow> bool" where
  "isFloatText s =
     (case dropWhile isDigit s of
        [] \<Rightarrow> False
      | c # ds \<Rightarrow> c = CHR ''.'' \<and> ds \<noteq> [] \<and> list_all isDigit ds)"

text \<open>\<open>parseInt(s, 10)\<close> for a text of digits.\<close>

definition parseInt :: "string \<Rightarrow> number" where
  "parseInt s = toDouble (decimal s) 1"

text \<open>\<open>parseFloat(s)\<close> for a text of optional digits, a dot and digits.\<close>

definition parseFloat :: "string \<Rightarrow> number" where
  "parseFloat s =
     (let ip = takeWhile isDigit s; fp = tl (dropWhile isDigit s)
      in toDouble (decimal (ip @ fp)) (10 ^ length fp))"

section \<open>parseValue\<close>

fun parseValue :: "jsval \<Rightarrow> jsval" where
  "parseValue Null = Null"
| "parseValue Undefined = Null"
| "parseValue (Str s) =
     (if isIntText s then Num (parseInt s)
      else if isFloatText s then Num (parseFloat s)
      else if toLowerCase s = ''true'' then Bool True
      else if toLowerCase s = ''false'' then Bool False
      else Str s)"
| "parseValue v = v"

declare parseValue.simps(3) [simp del]

section \<open>validateHeaders\<close>

text \<open>The loop over the header cells; \<open>seen\<close> is the \<open>Set\<close> of the headers met so far.\<close>

fun headersLoop :: "jsval set \<Rightarrow> jsval list \<Rightarrow> bool" where
  "headersLoop seen [] = True"
| "headersLoop seen (header # rest) =
     (case header of
        Str s \<Rightarrow>
          if trim s = [] then False
          else if header \<in> seen then False
          else headersLoop (insert header seen) rest
      | _ \<Rightarrow> False)"

fun validateHeaders :: "jsval \<Rightarrow> bool" where
  "validateHeaders (Arr headers) = headersLoop {} headers"
| "validateHeaders v = False"

section \<open>Stores into an object\<close>

text \<open>
  \<open>obj[key] = v\<close> on an ordinary object. Under every name but "__proto__" the store
  overwrites the object's own property, or adds one (what the prototype chain has under
  that name is a writable data property and does not stand in the way). The name
  "__proto__" is an accessor of \<open>Object.prototype\<close>: unless the object has a property of
  that name itself, the store looks the name up along the prototype chain, and where it
  finds the accessor it calls the setter, which replaces the prototype when \<open>v\<close> is an
  object or \<open>null\<close>, does nothing otherwise, and adds no property in either case.

  \<open>reachesSetter p\<close>: the lookup of "__proto__" from the prototype \<open>p\<close> ends at that
  accessor. It does not from \<open>null\<close>, nor from an object that has a property named
  "__proto__" itself (as \<open>JSON.parse\<close> can make one).
\<close>

fun reachesSetter :: "jsval prototype \<Rightarrow> bool" where
  "reachesSetter ObjectPrototype = True"
| "reachesSetter NullPrototype = False"
| "reachesSetter (ValuePrototype (Obj ps)) = (map_of ps ''__proto__'' = None)"
| "reachesSetter (ValuePrototype v) = True"

text \<open>The store into a record; its values are cell values.\<close>

definition setProperty :: "string \<Rightarrow> jsval \<Rightarrow> JsonRecord \<Rightarrow> JsonRecord" where
  "setProperty key v obj =
     (if key = ''__proto__'' \<and> map_of (props obj) key = None \<and> reachesSetter (proto obj)
      then (case v of
              Null \<Rightarrow> Object (props obj) NullPrototype
            | Arr xs \<Rightarrow> Object (props obj) (ValuePrototype v)
            | Obj ps \<Rightarrow> Object (props obj) (ValuePrototype v)
            | _ \<Rightarrow> obj)
      else Object (AList.update key v (props obj)) (proto obj))"

text \<open>
  The store into \<open>result\<close>; its values are arrays of records, which are objects, and an
  array has no property named "__proto__".
\<close>

definition setSheet :: "string \<Rightarrow> JsonRecord list \<Rightarrow> JsonSheetData \<Rightarrow> JsonSheetData" where
  "setSheet key records result =
     (if key = ''__proto__'' \<and> map_of (props result) key = None \<and> proto result \<noteq> NullPrototype
      then Object (props result) (ValuePrototype records)
      else Object (AList.update key records (props result)) (proto result))"

section \<open>convertToJson\<close>

text \<open>\<open>headers[index]\<close>: reading past the end of an array gives \<open>undefined\<close>.\<close>

definition headerAt :: "jsval list \<Rightarrow> nat \<Rightarrow> jsval" where
  "headerAt headers index = (if index < length headers then headers ! index else Undefined)"

text \<open>
  The callback of \<open>row.reduce\<close> in the TypeScript source: the guard compares the header
  cell itself with the text "string".
\<close>

definition reducer_ts :: "jsval list \<Rightarrow> JsonRecord \<Rightarrow> jsval \<Rightarrow> nat \<Rightarrow> JsonRecord" where
  "reducer_ts headers obj val index =
     (if headerAt headers index = Str ''string''
      then setProperty ''string'' (parseValue val) obj
      else obj)"

text \<open>
  The callback of \<open>row.reduce\<close> in the JavaScript copy: the guard compares the type of
  the header cell with "string".
\<close>

definition reducer_js :: "jsval list \<Rightarrow> JsonRecord \<Rightarrow> jsval \<Rightarrow> nat \<Rightarrow> JsonRecord" where
  "reducer_js headers obj val index =
     (case headerAt headers index of
        Str h \<Rightarrow> setProperty h (parseValue val) obj
      | _ \<Rightarrow> obj)"

text \<open>\<open>cells.reduce(callback, obj)\<close>, the index counted from \<open>index\<close>.\<close>

fun reduce :: "(JsonRecord \<Rightarrow> jsval \<Rightarrow> nat \<Rightarrow> JsonRecord) \<Rightarrow> JsonRecord \<Rightarrow> nat \<Rightarrow> jsval list \<Rightarrow> JsonRecord" where
  "reduce callback obj index [] = obj"
| "reduce callback obj index (v # vs) = reduce callback (callback obj v index) (Suc index) vs"

text \<open>One data row: \<open>row.reduce\<close> exists only when the row is an array.\<close>

fun rowToRecord :: "(JsonRecord \<Rightarrow> jsval \<Rightarrow> nat \<Rightarrow> JsonRecord) \<Rightarrow> jsval \<Rightarrow> error + JsonRecord" where
  "rowToRecord callback (Arr cells) = Inr (reduce callback (Object [] ObjectPrototype) 0 cells)"
| "rowToRecord callback v = Inl TypeError"

text \<open>\<open>rows.map\<close>: the rows in order, stopping at the first one that throws.\<close>

fun mapRows :: "(JsonRecord \<Rightarrow> jsval \<Rightarrow> nat \<Rightarrow> JsonRecord) \<Rightarrow> jsval list \<Rightarrow> error + JsonRecord list" where
  "mapRows callback [] = Inr []"
| "mapRows callback (row # rows) =
     (case rowToRecord callback row of
        Inl e \<Rightarrow> Inl e
      | Inr r \<Rightarrow>
          (case mapRows callback rows of
             Inl e \<Rightarrow> Inl e
           | Inr rs \<Rightarrow> Inr (r # rs)))"

text \<open>The cells of the header row, for \<open>headers[index]\<close> once validation has passed.\<close>

fun elements :: "jsval \<Rightarrow> jsval list" where
  "elements (Arr xs) = xs"
| "elements v = []"

text \<open>
  The body of the loop over the sheets for one sheet: a grid of at least two rows is
  split into its header row and its data rows, anything else gives no records.
\<close>

fun convertSheet :: "(jsval list \<Rightarrow> JsonRecord \<Rightarrow> jsval \<Rightarrow> nat \<Rightarrow> JsonRecord) \<Rightarrow> string \<Rightarrow> jsval \<Rightarrow> error + JsonRecord list" where
  "convertSheet callback sheet (Arr (headers # row # rows)) =
     (if validateHeaders headers
      then mapRows (callback (elements headers)) (row # rows)
      else Inl (InvalidHeaders sheet))"
| "convertSheet callback sheet v = Inr []"

text \<open>\<open>for (const sheet in spreadsheetData)\<close>, with \<open>result\<close> as accumulator.\<close>

fun sheetsLoop :: "(jsval list \<Rightarrow> JsonRecord \<Rightarrow> jsval \<Rightarrow> nat \<Rightarrow> JsonRecord) \<Rightarrow> JsonSheetData \<Rightarrow> (string \<times> jsval) list \<Rightarrow> error + JsonSheetData" where
  "sheetsLoop callback result [] = Inr result"
| "sheetsLoop callback result ((sheet, grid) # rest) =
     (case convertSheet callback sheet grid of
        Inl e \<Rightarrow> Inl e
      | Inr records \<Rightarrow> sheetsLoop callback (setSheet sheet records result) rest)"

text \<open>
  The enumerable properties of the argument: those of an object, and the indices of an
  array with their elements.
\<close>

fun entries :: "jsval \<Rightarrow> (string \<times> jsval) list" where
  "entries (Obj ps) = ps"
| "entries (Arr xs) = zip (map showNat [0..<length xs]) xs"
| "entries v = []"

definition convertToJsonWith :: "(jsval list \<Rightarrow> JsonRecord \<Rightarrow> jsval \<Rightarrow> nat \<Rightarrow> JsonRecord) \<Rightarrow> jsval \<Rightarrow> error + JsonSheetData" where
  "convertToJsonWith callback spreadsheetData =
     (if falsy spreadsheetData then Inr (Object [] ObjectPrototype)
      else if typeof spreadsheetData \<noteq> ''object'' then Inr (Object [] ObjectPrototype)
      else if length (entries spreadsheetData) = 0 then Inr (Object [] ObjectPrototype)
      else sheetsLoop callback (Object [] ObjectPrototype) (entries spreadsheetData))"

text \<open>\<open>convertToJson\<close> of the TypeScript source.\<close>

definition convertToJson :: "jsval \<Rightarrow> error + JsonSheetData" where
  "convertToJson = convertToJsonWith reducer_ts"

text \<open>\<open>convertToJson\<close> of the JavaScript copy.\<close>

definition convertToJson_js :: "jsval \<Rightarrow> error + JsonSheetData" where
  "convertToJson_js = convertToJsonWith reducer_js"

text \<open>The test \<open>Array.isArray(data) && data.length >= 2\<close> on a sheet's grid.\<close>

definition hasDataRows :: "jsval \<Rightarrow> bool" where
  "hasDataRows data = (isArray data \<and> 2 \<le> length (elements data))"

section \<open>The row loop without its guard\<close>

text \<open>
  Dropping the guard leaves \<open>obj[headers[index]] = this.parseValue(value)\<close>, which
  converts whatever \<open>headers[index]\<close> is to a property key. \<open>toString\<close> is that
  conversion; the decimal rendering of a Number is the parameter \<open>ns\<close>.
\<close>

fun joinComma :: "string list \<Rightarrow> string" where
  "joinComma [] = []"
| "joinComma [x] = x"
| "joinComma (x # y # ys) = x @ '','' @ joinComma (y # ys)"

fun toString :: "(number \<Rightarrow> string) \<Rightarrow> jsval \<Rightarrow> string" where
  "toString ns Undefined = ''undefined''"
| "toString ns Null = ''null''"
| "toString ns (Bool b) = (if b then ''true'' else ''false'')"
| "toString ns (Num n) = ns n"
| "toString ns (Str s) = s"
| "toString ns (Arr xs) =
     joinComma (map (\<lambda>x. if x = Undefined then [] else if x = Null then [] else toString ns x) xs)"
| "toString ns (Obj ps) = ''[object Object]''"

definition reducer_nocheck :: "(number \<Rightarrow> string) \<Rightarrow> jsval list \<Rightarrow> JsonRecord \<Rightarrow> jsval \<Rightarrow> nat \<Rightarrow> JsonRecord" where
  "reducer_nocheck ns headers obj val index =
     setProperty (toString ns (headerAt headers index)) (parseValue val) obj"

definition convertToJson_nocheck :: "(number \<Rightarrow> string) \<Rightarrow> jsval \<Rightarrow> error + JsonSheetData" where
  "convertToJson_nocheck ns = convertToJsonWith (reducer_nocheck ns)"

section \<open>Shapes of grids used in the statements\<close>

text \<open>A data row that is an array has no more cells than \<open>n\<close>.\<close>

fun rowFits :: "nat \<Rightarrow> jsval \<Rightarrow> bool" where
  "rowFits n (Arr cells) = (length cells \<le> n)"
| "rowFits n v = True"

text \<open>No data row of the grid is longer than its header row.\<close>

fun sheetFits :: "jsval \<Rightarrow> bool" where
  "sheetFits (Arr (headers # rows)) = list_all (rowFits (length (elements headers))) rows"
| "sheetFits v = True"

text \<open>A data row cut down to its first \<open>n\<close> cells.\<close>

fun clipRow :: "nat \<Rightarrow> jsval \<Rightarrow> jsval" where
  "clipRow n (Arr cells) = Arr (take n cells)"
| "clipRow n v = v"

text \<open>A grid with every data row cut down to the length of the header row.\<close>

fun clipSheet :: "jsval \<Rightarrow> jsval" where
  "clipSheet (Arr (headers # rows)) = Arr (headers # map (clipRow (length (elements headers))) rows)"
| "clipSheet v = v"

text \<open>Every row after the first is an array.\<close>

fun rowsAreArrays :: "jsval \<Rightarrow> bool" where
  "rowsAreArrays (Arr (headers # rows)) = list_all isArray rows"
| "rowsAreArrays v = True"

text \<open>A grid of at least two rows whose header row fails \<open>validateHeaders\<close>.\<close>

fun badHeaders :: "jsval \<Rightarrow> bool" where
  "badHeaders (Arr (headers # row # rows)) = (validateHeaders headers = False)"
| "badHeaders v = False"

text \<open>The header texts of a header row, in order.\<close>

fun headerTexts :: "jsval list \<Rightarrow> string list" where
  "headerTexts [] = []"
| "headerTexts (Str s # hs) = s # headerTexts hs"
| "headerTexts (v # hs) = headerTexts hs"

section \<open>The converter over a store\<close>

text \<open>
  The definitions above take the argument of \<open>convertToJson\<close> as a value and return
  the result as a value. What follows is the same code with the objects where the
  program has them: in a store, a list of cells, in which an object is known by its
  address, a call reads the cells of its argument and allocates and updates cells of
  its own. A value is a primitive or the address of a cell. \<open>convertToJson\<close>,
  \<open>validateHeaders\<close> and \<open>parseValue\<close> read no field of the instance they are
  methods of and no variable but their parameters and locals, so the objects of the
  argument and the objects that a call creates are all that a call can read or change.
\<close>

datatype sval = SUndefined | SNull | SBool bool | SNum number | SStr string | SRef nat

text \<open>
  The prototype slot of an object: \<open>Object.prototype\<close>, \<open>null\<close>, or the address of the
  object that a store under "__proto__" has put there.
\<close>

datatype sproto = ProtoObject | ProtoNull | ProtoRef nat

text \<open>
  A cell is an array with its elements, an ordinary object with its own properties and
  its prototype slot, or a \<open>Set\<close> with its members in insertion order.
\<close>

datatype cell =
    ArrayCell "sval list"
  | ObjectCell "(string \<times> sval) list" sproto
  | SetCell "sval list"

type_synonym store = "cell list"

text \<open>A new object gets the next free address; the cells before it are kept.\<close>

definition alloc :: "cell \<Rightarrow> store \<Rightarrow> nat \<times> store" where
  "alloc c h = (length h, h @ [c])"

fun typeof_store :: "sval \<Rightarrow> string" where
  "typeof_store SUndefined = ''undefined''"
| "typeof_store SNull = ''object''"
| "typeof_store (SBool b) = ''boolean''"
| "typeof_store (SNum n) = ''number''"
| "typeof_store (SStr s) = ''string''"
| "typeof_store (SRef a) = ''object''"

fun falsy_store :: "sval \<Rightarrow> bool" where
  "falsy_store SUndefined = True"
| "falsy_store SNull = True"
| "falsy_store (SBool b) = (b = False)"
| "falsy_store (SNum n) = (n = Finite 0 \<or> n = NaN)"
| "falsy_store (SStr s) = (s = [])"
| "falsy_store (SRef a) = False"

definition isArray_store :: "store \<Rightarrow> sval \<Rightarrow> bool" where
  "isArray_store h v =
     (case v of
        SRef a \<Rightarrow> (case h ! a of ArrayCell xs \<Rightarrow> True | _ \<Rightarrow> False)
      | _ \<Rightarrow> False)"

text \<open>The elements that the array \<open>v\<close> has in the store \<open>h\<close>; none if \<open>v\<close> is no array.\<close>

definition elementsAt :: "store \<Rightarrow> sval \<Rightarrow> sval list" where
  "elementsAt h v =
     (case v of
        SRef a \<Rightarrow> (case h ! a of ArrayCell xs \<Rightarrow> xs | _ \<Rightarrow> [])
      | _ \<Rightarrow> [])"

text \<open>\<open>headers[index]\<close>, read from the store.\<close>

definition headerAt_store :: "store \<Rightarrow> sval \<Rightarrow> nat \<Rightarrow> sval" where
  "headerAt_store h headers index =
     (if index < length (elementsAt h headers) then elementsAt h headers ! index else SUndefined)"

text \<open>
  The names that \<open>Object.keys\<close> and \<open>for ... in\<close> yield for \<open>v\<close>: the own properties
  of an object (the objects of the argument inherit no enumerable property), the
  indices of an array.
\<close>

definition ownKeys :: "store \<Rightarrow> sval \<Rightarrow> string list" where
  "ownKeys h v =
     (case v of
        SRef a \<Rightarrow>
          (case h ! a of
             ObjectCell ps pr \<Rightarrow> map fst ps
           | ArrayCell xs \<Rightarrow> map showNat [0..<length xs]
           | SetCell xs \<Rightarrow> [])
      | _ \<Rightarrow> [])"

text \<open>\<open>v[key]\<close> for a name that \<open>for ... in\<close> has yielded, read from the store.\<close>

definition getProperty :: "store \<Rightarrow> sval \<Rightarrow> string \<Rightarrow> sval" where
  "getProperty h v key =
     (case v of
        SRef a \<Rightarrow>
          (case h ! a of
             ObjectCell ps pr \<Rightarrow> (case map_of ps key of Some x \<Rightarrow> x | None \<Rightarrow> SUndefined)
           | ArrayCell xs \<Rightarrow>
               if key \<in> set (map showNat [0..<length xs]) then xs ! decimal key else SUndefined
           | SetCell xs \<Rightarrow> SUndefined)
      | _ \<Rightarrow> SUndefined)"

text \<open>
  The lookup of "__proto__" along the prototype chain that starts at \<open>p\<close> ends at the
  accessor of \<open>Object.prototype\<close>. An array leads there through \<open>Array.prototype\<close>, a
  \<open>Set\<close> through \<open>Set.prototype\<close>. A chain has no cycle, so it has no more links than
  the store has cells; \<open>n\<close> bounds the links followed.
\<close>

fun chainReachesSetter :: "nat \<Rightarrow> store \<Rightarrow> sproto \<Rightarrow> bool" where
  "chainReachesSetter n h ProtoObject = True"
| "chainReachesSetter n h ProtoNull = False"
| "chainReachesSetter 0 h (ProtoRef b) = False"
| "chainReachesSetter (Suc n) h (ProtoRef b) =
     (case h ! b of
        ObjectCell ps pr \<Rightarrow> map_of ps ''__proto__'' = None \<and> chainReachesSetter n h pr
      | _ \<Rightarrow> True)"

text \<open>
  \<open>obj[key] = v\<close> for the object at address \<open>a\<close>, as \<open>setProperty\<close> and \<open>setSheet\<close>
  above: the only cell that changes is the one at \<open>a\<close>. (The code stores into
  ordinary objects only.)
\<close>

definition setProperty_store :: "store \<Rightarrow> nat \<Rightarrow> string \<Rightarrow> sval \<Rightarrow> store" where
  "setProperty_store h a key v =
     (case h ! a of
        ObjectCell ps pr \<Rightarrow>
          if key = ''__proto__'' \<and> map_of ps key = None \<and> chainReachesSetter (length h) h pr
          then (case v of
                  SRef b \<Rightarrow> h[a := ObjectCell ps (ProtoRef b)]
                | SNull \<Rightarrow> h[a := ObjectCell ps ProtoNull]
                | _ \<Rightarrow> h)
          else h[a := ObjectCell (AList.update key v ps) pr]
      | _ \<Rightarrow> h)"

text \<open>\<open>parseValue\<close>: an object or array is returned as it is, by its address.\<close>

fun parseValue_store :: "sval \<Rightarrow> sval" where
  "parseValue_store SNull = SNull"
| "parseValue_store SUndefined = SNull"
| "parseValue_store (SStr s) =
     (if isIntText s then SNum (parseInt s)
      else if isFloatText s then SNum (parseFloat s)
      else if toLowerCase s = ''true'' then SBool True
      else if toLowerCase s = ''false'' then SBool False
      else SStr s)"
| "parseValue_store v = v"

text \<open>\<open>seen.has(x)\<close> and \<open>seen.add(x)\<close> for the \<open>Set\<close> at address \<open>a\<close>.\<close>

definition setHas :: "store \<Rightarrow> nat \<Rightarrow> sval \<Rightarrow> bool" where
  "setHas h a x = (case h ! a of SetCell xs \<Rightarrow> x \<in> set xs | _ \<Rightarrow> False)"

definition setAdd :: "store \<Rightarrow> nat \<Rightarrow> sval \<Rightarrow> store" where
  "setAdd h a x =
     (case h ! a of
        SetCell xs \<Rightarrow> if x \<in> set xs then h else h[a := SetCell (xs @ [x])]
      | _ \<Rightarrow> h)"

text \<open>
  \<open>for (const header of headers)\<close>: the array iterator reads the length and the
  element at \<open>index\<close> from the store at every step.
\<close>

function headersLoop_store :: "store \<Rightarrow> nat \<Rightarrow> sval \<Rightarrow> nat \<Rightarrow> bool \<times> store" where
  "headersLoop_store h seen headers index =
     (if index < length (elementsAt h headers)
      then (case elementsAt h headers ! index of
              SStr s \<Rightarrow>
                if trim s = [] then (False, h)
                else if setHas h seen (SStr s) then (False, h)
                else headersLoop_store (setAdd h seen (SStr s)) seen headers (Suc index)
            | _ \<Rightarrow> (False, h))
      else (True, h))"
  by pat_completeness auto

termination
proof (relation "measure (\<lambda>(h, seen, headers, index). length (elementsAt h headers) - index)")
  show "wf (measure (\<lambda>(h, seen, headers, index). length (elementsAt h headers) - index))"
    by simp
next
  fix h :: store and seen :: nat and headers :: sval and index :: nat and s :: string
  assume less: "index < length (elementsAt h headers)"
  have "elementsAt (setAdd h seen (SStr s)) headers = elementsAt h headers"
  proof (cases headers)
    case (SRef a)
    show ?thesis
    proof (cases "h ! seen")
      case (SetCell xs)
      then show ?thesis
        using SRef by (cases "a = seen"; cases "seen < length h")
          (simp_all add: elementsAt_def setAdd_def list_update_beyond)
    qed (simp_all add: setAdd_def)
  qed (simp_all add: elementsAt_def)
  then show "((setAdd h seen (SStr s), seen, headers, Suc index), (h, seen, headers, index))
      \<in> measure (\<lambda>(h, seen, headers, index). length (elementsAt h headers) - index)"
    using less by simp
qed

declare headersLoop_store.simps [simp del]

definition validateHeaders_store :: "store \<Rightarrow> sval \<Rightarrow> bool \<times> store" where
  "validateHeaders_store h headers =
     (if \<not> isArray_store h headers then (False, h)
      else
        let (seen, h1) = alloc (SetCell []) h
        in headersLoop_store h1 seen headers 0)"

text \<open>
  The callback of \<open>row.reduce\<close> in the TypeScript source; it returns \<open>obj\<close> itself, so
  the accumulator is the object at the same address throughout.
\<close>

definition reducer_store :: "store \<Rightarrow> sval \<Rightarrow> nat \<Rightarrow> sval \<Rightarrow> nat \<Rightarrow> store" where
  "reducer_store h headers obj val index =
     (case headerAt_store h headers index of
        SStr key \<Rightarrow>
          if key = ''string'' then setProperty_store h obj key (parseValue_store val) else h
      | _ \<Rightarrow> h)"

text \<open>
  \<open>row.reduce(callback, obj)\<close> from index \<open>k\<close> on: the length is read once, \<open>n\<close> is the
  number of indices left, and an index that the array no longer has is skipped.
\<close>

fun reduce_store :: "store \<Rightarrow> sval \<Rightarrow> sval \<Rightarrow> nat \<Rightarrow> nat \<Rightarrow> nat \<Rightarrow> store" where
  "reduce_store h headers row obj k 0 = h"
| "reduce_store h headers row obj k (Suc n) =
     reduce_store
       (if k < length (elementsAt h row)
        then reducer_store h headers obj (elementsAt h row ! k) k
        else h)
       headers row obj (Suc k) n"

text \<open>One data row: the record is a new object.\<close>

definition rowToRecord_store :: "store \<Rightarrow> sval \<Rightarrow> sval \<Rightarrow> (error + sval) \<times> store" where
  "rowToRecord_store h headers row =
     (if isArray_store h row
      then
        let (obj, h1) = alloc (ObjectCell [] ProtoObject) h
        in (Inr (SRef obj), reduce_store h1 headers row obj 0 (length (elementsAt h1 row)))
      else (Inl TypeError, h))"

text \<open>
  \<open>rows.map\<close> from index \<open>k\<close> on, into the array at address \<open>out\<close>, which \<open>map\<close> has
  created with the length of \<open>rows\<close>.
\<close>

fun mapLoop_store :: "store \<Rightarrow> sval \<Rightarrow> sval \<Rightarrow> nat \<Rightarrow> nat \<Rightarrow> nat \<Rightarrow> error option \<times> store" where
  "mapLoop_store h headers rows out k 0 = (None, h)"
| "mapLoop_store h headers rows out k (Suc n) =
     (if k < length (elementsAt h rows)
      then
        (case rowToRecord_store h headers (elementsAt h rows ! k) of
           (Inl e, h1) \<Rightarrow> (Some e, h1)
         | (Inr record, h1) \<Rightarrow>
             mapLoop_store (h1[out := ArrayCell ((elementsAt h1 (SRef out))[k := record])])
               headers rows out (Suc k) n)
      else mapLoop_store h headers rows out (Suc k) n)"

definition mapRows_store :: "store \<Rightarrow> sval \<Rightarrow> sval \<Rightarrow> (error + sval) \<times> store" where
  "mapRows_store h headers rows =
     (let len = length (elementsAt h rows);
          (out, h1) = alloc (ArrayCell (replicate len SUndefined)) h
      in case mapLoop_store h1 headers rows out 0 len of
           (Some e, h2) \<Rightarrow> (Inl e, h2)
         | (None, h2) \<Rightarrow> (Inr (SRef out), h2))"

text \<open>
  The body of the loop over the sheets, up to the value that is stored into \<open>result\<close>.
  \<open>[headers, ...rows] = data\<close> makes \<open>rows\<close> a new array.
\<close>

definition convertSheet_store :: "store \<Rightarrow> string \<Rightarrow> sval \<Rightarrow> (error + sval) \<times> store" where
  "convertSheet_store h sheet data =
     (if isArray_store h data \<and> 2 \<le> length (elementsAt h data)
      then
        let headers = hd (elementsAt h data);
            (rows, h1) = alloc (ArrayCell (tl (elementsAt h data))) h;
            (validHeaders, h2) = validateHeaders_store h1 headers
        in if \<not> validHeaders then (Inl (InvalidHeaders sheet), h2)
           else mapRows_store h2 headers (SRef rows)
      else
        let (empty, h1) = alloc (ArrayCell []) h
        in (Inr (SRef empty), h1))"

text \<open>
  \<open>for (const sheet in spreadsheetData)\<close> over the names still to visit; \<open>result\<close> is
  the address of the object that is returned.
\<close>

fun sheetsLoop_store :: "store \<Rightarrow> sval \<Rightarrow> nat \<Rightarrow> string list \<Rightarrow> (error + sval) \<times> store" where
  "sheetsLoop_store h spreadsheetData result [] = (Inr (SRef result), h)"
| "sheetsLoop_store h spreadsheetData result (sheet # rest) =
     (case convertSheet_store h sheet (getProperty h spreadsheetData sheet) of
        (Inl e, h1) \<Rightarrow> (Inl e, h1)
      | (Inr records, h1) \<Rightarrow>
          sheetsLoop_store (setProperty_store h1 result sheet records) spreadsheetData result rest)"

text \<open>
  \<open>convertToJson\<close> of the TypeScript source, run in the store \<open>h\<close>: the outcome and
  the store it leaves. (The array that \<open>Object.keys\<close> returns is used for its length
  and dropped; it is left out of the store.)
\<close>

definition convertToJson_store :: "store \<Rightarrow> sval \<Rightarrow> (error + sval) \<times> store" where
  "convertToJson_store h spreadsheetData =
     (if falsy_store spreadsheetData \<or> typeof_store spreadsheetData \<noteq> ''object''
         \<or> length (ownKeys h spreadsheetData) = 0
      then
        let (empty, h1) = alloc (ObjectCell [] ProtoObject) h
        in (Inr (SRef empty), h1)
      else
        let (result, h1) = alloc (ObjectCell [] ProtoObject) h
        in sheetsLoop_store h1 spreadsheetData result (ownKeys h1 spreadsheetData))"

section \<open>What a store holds\<close>

text \<open>
  \<open>repr h v j\<close>: in the store \<open>h\<close> the value \<open>v\<close> is the JSON value \<open>j\<close>. An object has
  its properties under distinct names and the prototype of an object literal.
\<close>

fun repr :: "store \<Rightarrow> sval \<Rightarrow> jsval \<Rightarrow> bool"
  and reprs :: "store \<Rightarrow> sval list \<Rightarrow> jsval list \<Rightarrow> bool"
  and reprProps :: "store \<Rightarrow> (string \<times> sval) list \<Rightarrow> (string \<times> jsval) list \<Rightarrow> bool" where
  "repr h v Undefined = (v = SUndefined)"
| "repr h v Null = (v = SNull)"
| "repr h v (Bool b) = (v = SBool b)"
| "repr h v (Num n) = (v = SNum n)"
| "repr h v (Str s) = (v = SStr s)"
| "repr h v (Arr xs) =
     (case v of
        SRef a \<Rightarrow> a < length h \<and> (case h ! a of ArrayCell vs \<Rightarrow> reprs h vs xs | _ \<Rightarrow> False)
      | _ \<Rightarrow> False)"
| "repr h v (Obj ps) =
     (case v of
        SRef a \<Rightarrow>
          a < length h
          \<and> (case h ! a of
               ObjectCell qs pr \<Rightarrow> pr = ProtoObject \<and> distinct (map fst ps) \<and> reprProps h qs ps
             | _ \<Rightarrow> False)
      | _ \<Rightarrow> False)"
| "reprs h [] [] = True"
| "reprs h (v # vs) (x # xs) = (repr h v x \<and> reprs h vs xs)"
| "reprs h [] (x # xs) = False"
| "reprs h (v # vs) [] = False"
| "reprProps h [] [] = True"
| "reprProps h ((k, v) # qs) ((k', x) # ps) = (k = k' \<and> repr h v x \<and> reprProps h qs ps)"
| "reprProps h [] (p # ps) = False"
| "reprProps h (q # qs) [] = False"

text \<open>
  The objects that the converter builds. \<open>R\<close> relates what an object or array holds
  to what its counterpart holds; \<open>lo\<close> is a lower bound of the address: an object at an
  address not below the length that the store had before a call is one that the call
  has allocated.
\<close>

fun reprProto :: "(sval \<Rightarrow> 'v \<Rightarrow> bool) \<Rightarrow> sproto \<Rightarrow> 'v prototype \<Rightarrow> bool" where
  "reprProto R ProtoObject ObjectPrototype = True"
| "reprProto R ProtoNull NullPrototype = True"
| "reprProto R (ProtoRef b) (ValuePrototype x) = R (SRef b) x"
| "reprProto R p q = False"

definition reprObject :: "(sval \<Rightarrow> 'v \<Rightarrow> bool) \<Rightarrow> nat \<Rightarrow> store \<Rightarrow> sval \<Rightarrow> 'v object \<Rightarrow> bool" where
  "reprObject R lo h v obj =
     (case v of
        SRef a \<Rightarrow>
          lo \<le> a \<and> a < length h
          \<and> (case h ! a of
               ObjectCell qs pr \<Rightarrow>
                 list_all2 (\<lambda>(k, x) (k', y). k = k' \<and> R x y) qs (props obj)
                 \<and> reprProto R pr (proto obj)
             | _ \<Rightarrow> False)
      | _ \<Rightarrow> False)"

definition reprArray :: "(sval \<Rightarrow> 'v \<Rightarrow> bool) \<Rightarrow> nat \<Rightarrow> store \<Rightarrow> sval \<Rightarrow> 'v list \<Rightarrow> bool" where
  "reprArray R lo h v xs =
     (case v of
        SRef a \<Rightarrow>
          lo \<le> a \<and> a < length h
          \<and> (case h ! a of ArrayCell vs \<Rightarrow> list_all2 R vs xs | _ \<Rightarrow> False)
      | _ \<Rightarrow> False)"

text \<open>The array of the records of a sheet, which hold values of the argument.\<close>

definition reprRecords :: "(sval \<Rightarrow> jsval \<Rightarrow> bool) \<Rightarrow> nat \<Rightarrow> store \<Rightarrow> sval \<Rightarrow> JsonRecord list \<Rightarrow> bool" where
  "reprRecords R lo h = reprArray (reprObject R lo h) lo h"

text \<open>
  \<open>reprSheetData lo h v out\<close>: in the store \<open>h\<close> the value \<open>v\<close> is the \<open>JsonSheetData\<close>
  \<open>out\<close>, sheet by sheet, record by record, property by property, in objects and arrays
  at addresses from \<open>lo\<close> on.
\<close>

definition reprSheetData :: "nat \<Rightarrow> store \<Rightarrow> sval \<Rightarrow> JsonSheetData \<Rightarrow> bool" where
  "reprSheetData lo h = reprObject (reprRecords (repr h) lo h) lo h"

text \<open>The outcome of a run in the store and an outcome of \<open>convertToJson\<close> above agree.\<close>

fun reprOutcome :: "nat \<Rightarrow> store \<Rightarrow> error + sval \<Rightarrow> error + JsonSheetData \<Rightarrow> bool" where
  "reprOutcome lo h (Inl e) (Inl e') = (e = e')"
| "reprOutcome lo h (Inr v) (Inr out) = reprSheetData lo h v out"
| "reprOutcome lo h (Inl e) (Inr out) = False"
| "reprOutcome lo h (Inr v) (Inl e') = False"

section \<open>Rounding to a double\<close>

lemma roundHalfEven_one: "roundHalfEven n (Suc 0) = n"
  by (simp add: roundHalfEven_def)

lemma floorLog2_nat:
  assumes "0 < n"
  shows "floorLog2 n (Suc 0) = int (floorlog 2 n) - 1"
proof -
  have one: "floorlog 2 (Suc 0) = 1"
    by (simp add: compute_floorlog)
  have pos: "0 < floorlog 2 n"
    using assms by (simp add: floorlog_def)
  have "2 ^ (floorlog 2 n - 1) \<le> n"
    using floorlog_bounds [of n 2] assms by simp
  moreover have "nat (int (floorlog 2 n) - 1) = floorlog 2 n - 1"
    by simp
  ultimately show ?thesis
    using pos by (simp add: floorLog2_def one)
qed

lemma toDouble_small:
  assumes "n < 2 ^ 53"
  shows "toDouble n 1 = Finite (of_nat n)"
proof (cases "n = 0")
  case True
  then show ?thesis by (simp add: toDouble_def)
next
  case False
  define L where "L = floorlog 2 n"
  have fl: "floorLog2 n (Suc 0) = int L - 1"
    using False by (simp add: floorLog2_nat L_def)
  have L53: "L \<le> 53"
    unfolding L_def using assms by (simp add: floorlog_le_iff)
  have Lpos: "0 < L"
    using False by (simp add: L_def floorlog_def)
  show ?thesis
  proof (cases "L = 53")
    case True
    then show ?thesis
      using False by (simp add: toDouble_def fl roundHalfEven_one)
  next
    case False
    with L53 have lt: "L < 53" by simp
    have e: "max (int L - 1 - 52) (- 1074) = - int (53 - L)"
      using lt by simp
    have "(of_nat (n * 2 ^ (53 - L)) :: rat) * 2 powi (- int (53 - L)) = of_nat n"
      by (simp add: power_int_minus)
    moreover have "nat (53 - int L) = 53 - L"
      using lt by simp
    ultimately show ?thesis
      using \<open>n \<noteq> 0\<close> lt by (simp add: toDouble_def fl e roundHalfEven_one)
  qed
qed

lemma toDouble_exact:
  assumes "n \<le> 2 ^ 53"
  shows "toDouble n 1 = Finite (of_nat n)"
proof (cases "n = 2 ^ 53")
  case True
  have "toDouble 9007199254740992 1 = Finite 9007199254740992"
    by (simp add: toDouble_def floorLog2_def roundHalfEven_def Let_def compute_floorlog)
  then show ?thesis using True by simp
next
  case False
  with assms have "n < 2 ^ 53" by simp
  then show ?thesis by (rule toDouble_small)
qed

text \<open>
  The rounding is to a nearest integer: twice the distance between \<open>m * d\<close> and \<open>n\<close> is
  at most \<open>d\<close>.
\<close>

lemma roundHalfEven_nearest:
  assumes "0 < d"
  shows "2 * \<bar>int (roundHalfEven n d) * int d - int n\<bar> \<le> int d"
proof -
  define q r where "q = n div d" and "r = n mod d"
  have n: "int n = int q * int d + int r"
    unfolding q_def r_def by (metis div_mult_mod_eq of_nat_add of_nat_mult)
  have r: "r < d"
    using assms by (simp add: r_def)
  consider "2 * r < d" | "d < 2 * r" | "2 * r = d"
    by linarith
  then show ?thesis
  proof cases
    case 1
    then have "roundHalfEven n d = q"
      by (simp add: roundHalfEven_def Let_def q_def r_def)
    then show ?thesis
      using 1 n by simp
  next
    case 2
    then have "roundHalfEven n d = q + 1"
      by (simp add: roundHalfEven_def Let_def q_def r_def)
    then show ?thesis
      using 2 r n by (simp add: algebra_simps)
  next
    case 3
    then have "roundHalfEven n d = q \<or> roundHalfEven n d = q + 1"
      by (simp add: roundHalfEven_def Let_def q_def r_def)
    then show ?thesis
      using 3 n by (auto simp add: algebra_simps)
  qed
qed

lemma roundHalfEven_even_on_tie:
  "0 < d \<Longrightarrow> 2 * (n mod d) = d \<Longrightarrow> even (roundHalfEven n d)"
  by (simp add: roundHalfEven_def Let_def)

text \<open>\<open>floorLog2 n d\<close> is the exponent of the power of two at or below \<open>n / d\<close>.\<close>

lemma floorLog2_bounds:
  assumes "0 < n" and "0 < d"
  shows "(of_nat d :: rat) * 2 powi (floorLog2 n d) \<le> of_nat n"
    and "(of_nat n :: rat) < of_nat d * 2 powi (floorLog2 n d + 1)"
proof -
  define bn bd where "bn = floorlog 2 n" and "bd = floorlog 2 d"
  define k where "k = int bn - int bd"
  have bn: "2 ^ (bn - 1) \<le> n" "n < 2 ^ bn" and bd: "2 ^ (bd - 1) \<le> d" "d < 2 ^ bd"
    using floorlog_bounds [of n 2] floorlog_bounds [of d 2] assms by (simp_all add: bn_def bd_def)
  have pos: "0 < bn" "0 < bd"
    using assms by (simp_all add: bn_def bd_def floorlog_def)
  have rn: "(2::rat) powi (int bn - 1) \<le> of_nat n" "(of_nat n :: rat) < 2 powi (int bn)"
  proof -
    have "(2::rat) powi (int bn - 1) = 2 ^ (bn - 1)"
      using pos(1) by (simp add: power_int_def nat_diff_distrib')
    also have "\<dots> = of_nat (2 ^ (bn - 1))"
      by simp
    also have "\<dots> \<le> of_nat n"
      using bn(1) by (simp only: of_nat_le_iff)
    finally show "(2::rat) powi (int bn - 1) \<le> of_nat n" .
    have "(of_nat n :: rat) < of_nat (2 ^ bn)"
      using bn(2) by (simp only: of_nat_less_iff)
    then show "(of_nat n :: rat) < 2 powi (int bn)"
      by simp
  qed
  have rd: "(2::rat) powi (int bd - 1) \<le> of_nat d" "(of_nat d :: rat) < 2 powi (int bd)"
  proof -
    have "(2::rat) powi (int bd - 1) = 2 ^ (bd - 1)"
      using pos(2) by (simp add: power_int_def nat_diff_distrib')
    also have "\<dots> = of_nat (2 ^ (bd - 1))"
      by simp
    also have "\<dots> \<le> of_nat d"
      using bd(1) by (simp only: of_nat_le_iff)
    finally show "(2::rat) powi (int bd - 1) \<le> of_nat d" .
    have "(of_nat d :: rat) < of_nat (2 ^ bd)"
      using bd(2) by (simp only: of_nat_less_iff)
    then show "(of_nat d :: rat) < 2 powi (int bd)"
      by simp
  qed
  have low: "(of_nat d :: rat) * 2 powi (k - 1) \<le> of_nat n"
  proof -
    have "(of_nat d :: rat) * 2 powi (k - 1) \<le> 2 powi (int bd) * 2 powi (k - 1)"
      using rd(2) by (simp add: mult_right_mono)
    also have "\<dots> = 2 powi (int bn - 1)"
      using power_int_add [of "2::rat" "int bd" "k - 1"] by (simp add: k_def)
    finally show ?thesis
      using rn(1) by simp
  qed
  have high: "(of_nat n :: rat) < of_nat d * 2 powi (k + 1)"
  proof -
    have "(2::rat) powi (int bd - 1) * 2 powi (k + 1) = 2 powi (int bn)"
      using power_int_add [of "2::rat" "int bd - 1" "k + 1"] by (simp add: k_def)
    then have "(of_nat n :: rat) < 2 powi (int bd - 1) * 2 powi (k + 1)"
      using rn(2) by simp
    also have "\<dots> \<le> of_nat d * 2 powi (k + 1)"
      using rd(1) by (simp add: mult_right_mono)
    finally show ?thesis .
  qed
  have test: "(if 0 \<le> k then d * 2 ^ nat k \<le> n else d \<le> n * 2 ^ nat (- k))
      \<longleftrightarrow> (of_nat d :: rat) * 2 powi k \<le> of_nat n"
  proof (cases "0 \<le> k")
    case True
    have "d * 2 ^ nat k \<le> n \<longleftrightarrow> (of_nat (d * 2 ^ nat k) :: rat) \<le> of_nat n"
      by (simp only: of_nat_le_iff)
    then show ?thesis
      using True by (simp add: power_int_def)
  next
    case False
    have "d \<le> n * 2 ^ nat (- k) \<longleftrightarrow> (of_nat d :: rat) \<le> of_nat (n * 2 ^ nat (- k))"
      by (simp only: of_nat_le_iff)
    also have "\<dots> \<longleftrightarrow> (of_nat d :: rat) * 2 powi k \<le> of_nat n"
      using False by (simp add: power_int_def field_simps)
    finally show ?thesis
      using False by simp
  qed
  have "floorLog2 n d =
      (if (if 0 \<le> k then d * 2 ^ nat k \<le> n else d \<le> n * 2 ^ nat (- k)) then k else k - 1)"
    unfolding floorLog2_def Let_def k_def bn_def bd_def by (rule refl)
  then have fl: "floorLog2 n d = (if (of_nat d :: rat) * 2 powi k \<le> of_nat n then k else k - 1)"
    by (simp only: test)
  show "(of_nat d :: rat) * 2 powi (floorLog2 n d) \<le> of_nat n"
    using low by (simp add: fl)
  show "(of_nat n :: rat) < of_nat d * 2 powi (floorLog2 n d + 1)"
    using high by (auto simp add: fl)
qed

text \<open>
  A finite result of \<open>toDouble\<close> is a multiple \<open>m * 2^e\<close> of the unit in the last place,
  with \<open>m\<close> at most \<open>2^53\<close> (and at least \<open>2^52\<close> above the subnormal range), and lies
  within half a unit of \<open>n / d\<close>.
\<close>

lemma toDouble_nearest:
  assumes "0 < n" and "0 < d" and e: "e = max (floorLog2 n d - 52) (- 1074)"
  shows "toDouble n d = PosInfinity
     \<or> (\<exists>m. toDouble n d = Finite (of_nat m * 2 powi e) \<and> m \<le> 2 ^ 53
          \<and> (- 1074 \<le> floorLog2 n d - 52 \<longrightarrow> 2 ^ 52 \<le> m)
          \<and> \<bar>of_nat m * 2 powi e - (of_nat n :: rat) / of_nat d\<bar> \<le> 2 powi e / 2)"
proof -
  define N D where "N = (if e < 0 then n * 2 ^ nat (- e) else n)"
    and "D = (if e < 0 then d else d * 2 ^ nat e)"
  define m where "m = (if e < 0 then roundHalfEven (n * 2 ^ nat (- e)) d
                 else roundHalfEven n (d * 2 ^ nat e))"
  have m: "m = roundHalfEven N D"
    by (simp add: m_def N_def D_def)
  have Dpos: "0 < D"
    using assms(2) by (simp add: D_def)
  have ppos: "0 < (2::rat) powi e"
    by simp
  have scale: "(of_nat N :: rat) / of_nat D = of_nat n / of_nat d / 2 powi e"
  proof (cases "e < 0")
    case True
    then have "(2::rat) powi e = 1 / 2 ^ nat (- e)"
      by (simp add: power_int_def field_simps)
    then show ?thesis
      using True by (simp add: N_def D_def)
  next
    case False
    then have "(2::rat) powi e = 2 ^ nat e"
      by (simp add: power_int_def)
    then show ?thesis
      using False by (simp add: N_def D_def)
  qed
  have "2 * \<bar>int m * int D - int N\<bar> \<le> int D"
    unfolding m using Dpos by (rule roundHalfEven_nearest)
  then have "(of_int (2 * \<bar>int m * int D - int N\<bar>) :: rat) \<le> of_int (int D)"
    by (simp only: of_int_le_iff)
  then have two: "2 * \<bar>(of_nat m :: rat) * of_nat D - of_nat N\<bar> \<le> of_nat D"
    by simp
  have "(of_nat m :: rat) - of_nat N / of_nat D = (of_nat m * of_nat D - of_nat N) / of_nat D"
    using Dpos by (simp add: field_simps)
  then have "\<bar>(of_nat m :: rat) - of_nat N / of_nat D\<bar>
      = \<bar>(of_nat m :: rat) * of_nat D - of_nat N\<bar> / of_nat D"
    using Dpos by (simp add: abs_divide)
  also have "\<dots> \<le> 1 / 2"
    using two Dpos by (simp add: field_simps)
  finally have half: "\<bar>(of_nat m :: rat) - of_nat n / of_nat d / 2 powi e\<bar> \<le> 1 / 2"
    by (simp only: scale)
  have "(of_nat m :: rat) * 2 powi e - of_nat n / of_nat d
      = (of_nat m - of_nat n / of_nat d / 2 powi e) * 2 powi e"
    by (simp add: field_simps)
  then have "\<bar>(of_nat m :: rat) * 2 powi e - of_nat n / of_nat d\<bar>
      = \<bar>(of_nat m - of_nat n / of_nat d / 2 powi e) * 2 powi e\<bar>"
    by (simp only:)
  also have "\<dots> = \<bar>(of_nat m :: rat) - of_nat n / of_nat d / 2 powi e\<bar> * 2 powi e"
    using ppos by (simp only: abs_mult abs_of_pos)
  also have "\<dots> \<le> 1 / 2 * 2 powi e"
    using half ppos by (intro mult_right_mono) simp_all
  also have "\<dots> = 2 powi e / 2"
    by simp
  finally have near: "\<bar>(of_nat m :: rat) * 2 powi e - of_nat n / of_nat d\<bar> \<le> 2 powi e / 2" .
  have upper: "(of_nat N :: rat) / of_nat D < 2 ^ 53"
  proof -
    have "(of_nat n :: rat) < of_nat d * 2 powi (floorLog2 n d + 1)"
      using assms(1,2) by (rule floorLog2_bounds)
    also have "\<dots> \<le> of_nat d * 2 powi (e + 53)"
    proof -
      have "floorLog2 n d + 1 \<le> e + 53"
        by (simp add: e)
      then have "(2::rat) powi (floorLog2 n d + 1) \<le> 2 powi (e + 53)"
        by (intro power_int_increasing) simp_all
      then show ?thesis
        by (simp add: mult_left_mono)
    qed
    finally have "(of_nat n :: rat) / of_nat d < 2 powi (e + 53)"
      using assms(2) by (simp add: field_simps)
    moreover have "(2::rat) powi (e + 53) = 2 ^ 53 * 2 powi e"
      using power_int_add [of "2::rat" e 53] by simp
    ultimately have "(of_nat n :: rat) / of_nat d < 2 ^ 53 * 2 powi e"
      by (simp only:)
    then have "(of_nat n :: rat) / of_nat d / 2 powi e < 2 ^ 53"
      using ppos by (simp only: pos_divide_less_eq)
    then show ?thesis
      by (simp only: scale)
  qed
  have m53: "m \<le> 2 ^ 53"
  proof -
    have "(of_nat N :: rat) < of_nat (2 ^ 53 * D)"
      using upper Dpos by (simp add: field_simps)
    then have "N < 2 ^ 53 * D"
      by (simp only: of_nat_less_iff)
    then have "N div D < 2 ^ 53"
      using Dpos by (simp add: less_mult_imp_div_less)
    then show ?thesis
      unfolding m by (auto simp add: roundHalfEven_def Let_def)
  qed
  have m52: "- 1074 \<le> floorLog2 n d - 52 \<longrightarrow> 2 ^ 52 \<le> m"
  proof
    assume norm: "- 1074 \<le> floorLog2 n d - 52"
    then have el: "floorLog2 n d = e + 52"
      by (simp add: e)
    have "(of_nat d :: rat) * 2 powi (floorLog2 n d) \<le> of_nat n"
      using assms(1,2) by (rule floorLog2_bounds)
    moreover have "(2::rat) powi (e + 52) = 2 ^ 52 * 2 powi e"
      using power_int_add [of "2::rat" e 52] by simp
    ultimately have "(of_nat d :: rat) * (2 ^ 52 * 2 powi e) \<le> of_nat n"
      by (simp only: el)
    then have "(2::rat) ^ 52 * 2 powi e \<le> of_nat n / of_nat d"
      using assms(2) by (simp add: field_simps)
    then have "(2::rat) ^ 52 \<le> of_nat n / of_nat d / 2 powi e"
      using ppos by (simp only: pos_le_divide_eq)
    then have "(2::rat) ^ 52 \<le> of_nat N / of_nat D"
      by (simp only: scale)
    then have "(of_nat (2 ^ 52 * D) :: rat) \<le> of_nat N"
      using Dpos by (simp add: field_simps)
    then have "2 ^ 52 * D \<le> N"
      by (simp only: of_nat_le_iff)
    then have "2 ^ 52 \<le> N div D"
      using Dpos by (simp add: less_eq_div_iff_mult_less_eq)
    then show "2 ^ 52 \<le> m"
      unfolding m by (auto simp add: roundHalfEven_def Let_def)
  qed
  have nz: "(n = 0) = False"
    using assms(1) by simp
  define over top where "over \<longleftrightarrow> 971 < e" and "top \<longleftrightarrow> e = 971 \<and> m = 2 ^ 53"
  have "toDouble n d =
      (if 971 < e then PosInfinity
       else if e = 971 \<and> m = 2 ^ 53 then PosInfinity
       else Finite (of_nat m * 2 powi e))"
    unfolding toDouble_def Let_def m_def e by (simp only: nz if_False)
  then have "toDouble n d =
      (if over then PosInfinity else if top then PosInfinity else Finite (of_nat m * 2 powi e))"
    by (simp only: over_def top_def)
  then have either: "toDouble n d = PosInfinity \<or> toDouble n d = Finite (of_nat m * 2 powi e)"
    by (cases over; cases top) simp_all
  show ?thesis
  proof (cases "toDouble n d = PosInfinity")
    case True
    then show ?thesis by (rule disjI1)
  next
    case False
    with either have fin: "toDouble n d = Finite (of_nat m * 2 powi e)"
      by simp
    have "\<exists>m. toDouble n d = Finite (of_nat m * 2 powi e) \<and> m \<le> 2 ^ 53
          \<and> (- 1074 \<le> floorLog2 n d - 52 \<longrightarrow> 2 ^ 52 \<le> m)
          \<and> \<bar>of_nat m * 2 powi e - (of_nat n :: rat) / of_nat d\<bar> \<le> 2 powi e / 2"
      using fin m53 m52 near by (intro exI [of _ m] conjI) assumption+
    then show ?thesis by (rule disjI2)
  qed
qed

section \<open>Facts about the text predicates\<close>

lemma of_char_lowerChar:
  "(of_char (lowerChar c) :: nat) =
     (if (65 \<le> (of_char c :: nat) \<and> (of_char c :: nat) \<le> 90)
         \<or> (192 \<le> (of_char c :: nat) \<and> (of_char c :: nat) \<le> 222 \<and> (of_char c :: nat) \<noteq> 215)
      then of_char c + 32 else of_char c)"
  by (simp add: lowerChar_def Let_def)

lemma lowerChar_below_letters: "(of_char c :: nat) < 65 \<Longrightarrow> lowerChar c = c"
  by (simp add: lowerChar_def Let_def)

lemma lowerChar_digit: "isDigit c \<Longrightarrow> lowerChar c = c"
  by (simp add: lowerChar_below_letters isDigit_def)

lemma lowerChar_small_letter:
  assumes "97 \<le> (of_char d :: nat)" and "(of_char d :: nat) \<le> 122"
  shows "lowerChar c = d \<longleftrightarrow> c = d \<or> (of_char c :: nat) + 32 = of_char d"
proof -
  have "lowerChar c = d \<longleftrightarrow> (of_char (lowerChar c) :: nat) = of_char d"
    by simp
  also have "\<dots> \<longleftrightarrow> (of_char c :: nat) = of_char d \<or> (of_char c :: nat) + 32 = of_char d"
    using assms by (auto simp add: of_char_lowerChar)
  finally show ?thesis by simp
qed

lemma toLowerCase_digit: "c \<in> set s \<Longrightarrow> isDigit c \<Longrightarrow> c \<in> set (toLowerCase s)"
  using lowerChar_digit by (force simp add: toLowerCase_def)

lemma not_digit_dot: "\<not> isDigit CHR ''.''"
  by (simp add: isDigit_def)

lemma isFloatText_iff:
  "isFloatText s \<longleftrightarrow>
     (\<exists>a b. s = a @ ''.'' @ b \<and> list_all isDigit a \<and> list_all isDigit b \<and> b \<noteq> [])"
proof
  assume fl: "isFloatText s"
  then obtain ds where d: "dropWhile isDigit s = CHR ''.'' # ds" "ds \<noteq> []" "list_all isDigit ds"
    by (auto simp add: isFloatText_def split: list.splits)
  have "s = takeWhile isDigit s @ ''.'' @ ds"
    using takeWhile_dropWhile_id [of isDigit s] d(1) by simp
  moreover have "list_all isDigit (takeWhile isDigit s)"
    by (simp add: list_all_iff) (meson set_takeWhileD)
  ultimately show "\<exists>a b. s = a @ ''.'' @ b \<and> list_all isDigit a \<and> list_all isDigit b \<and> b \<noteq> []"
    using d by blast
next
  assume "\<exists>a b. s = a @ ''.'' @ b \<and> list_all isDigit a \<and> list_all isDigit b \<and> b \<noteq> []"
  then obtain a b where s: "s = a @ ''.'' @ b" and a: "list_all isDigit a"
    and b: "list_all isDigit b" "b \<noteq> []"
    by blast
  have "dropWhile isDigit s = CHR ''.'' # b"
    using a not_digit_dot by (simp add: s list_all_iff dropWhile_append)
  then show "isFloatText s"
    using b by (simp add: isFloatText_def)
qed

lemma float_parts:
  assumes "list_all isDigit a"
  shows "takeWhile isDigit (a @ ''.'' @ b) = a" and "tl (dropWhile isDigit (a @ ''.'' @ b)) = b"
  using assms not_digit_dot by (simp_all add: list_all_iff takeWhile_append dropWhile_append)

lemma isIntText_chars: "isIntText s \<Longrightarrow> list_all (\<lambda>c. isDigit c \<or> c = CHR ''.'') s"
  by (simp add: isIntText_def list_all_iff)

lemma isFloatText_chars: "isFloatText s \<Longrightarrow> list_all (\<lambda>c. isDigit c \<or> c = CHR ''.'') s"
  by (auto simp add: isFloatText_iff list_all_iff)

lemma isFloatText_not_int: "isFloatText s \<Longrightarrow> \<not> isIntText s"
  using not_digit_dot by (auto simp add: isFloatText_iff isIntText_def list_all_iff)

lemma isFloatText_last: "isFloatText s \<Longrightarrow> isDigit (last s)"
  by (auto simp add: isFloatText_iff list_all_iff)

lemma isIntText_last: "isIntText s \<Longrightarrow> isDigit (last s)"
  by (auto simp add: isIntText_def list_all_iff)

lemma toLowerCase_true_head:
  assumes "toLowerCase s = ''true'' \<or> toLowerCase s = ''false''"
  shows "\<not> isIntText s \<and> \<not> isFloatText s"
proof -
  have digits_kept: "\<And>c. c \<in> set s \<Longrightarrow> isDigit c \<Longrightarrow> c \<in> set (toLowerCase s)"
    by (rule toLowerCase_digit)
  have nodigit: "\<And>c. c \<in> set (toLowerCase s) \<Longrightarrow> \<not> isDigit c"
    using assms by (auto simp add: isDigit_def)
  have ne: "s \<noteq> []"
    using assms by (auto simp add: toLowerCase_def)
  have "\<not> isDigit (last s)"
    using digits_kept nodigit ne last_in_set by blast
  then show ?thesis
    using isFloatText_last isIntText_last by blast
qed

lemma toLowerCase_true_iff:
  "toLowerCase s = ''true'' \<longleftrightarrow>
     (\<exists>a b c d. s = [a, b, c, d] \<and> (a = CHR ''t'' \<or> a = CHR ''T'') \<and> (b = CHR ''r'' \<or> b = CHR ''R'')
        \<and> (c = CHR ''u'' \<or> c = CHR ''U'') \<and> (d = CHR ''e'' \<or> d = CHR ''E''))"
proof -
  have up: "\<And>c k. (of_char c :: nat) = k \<longleftrightarrow> c = char_of k \<and> k < 256"
    by (metis char_of_char nat_of_char_less_256 of_char_of mod_less)
  have "toLowerCase s = ''true'' \<longleftrightarrow>
     (\<exists>a b c d. s = [a, b, c, d] \<and> lowerChar a = CHR ''t'' \<and> lowerChar b = CHR ''r''
        \<and> lowerChar c = CHR ''u'' \<and> lowerChar d = CHR ''e'')"
    by (auto simp add: toLowerCase_def map_eq_Cons_conv)
  also have "\<dots> \<longleftrightarrow> (\<exists>a b c d. s = [a, b, c, d] \<and> (a = CHR ''t'' \<or> a = CHR ''T'') \<and> (b = CHR ''r'' \<or> b = CHR ''R'')
        \<and> (c = CHR ''u'' \<or> c = CHR ''U'') \<and> (d = CHR ''e'' \<or> d = CHR ''E''))"
    by (simp add: lowerChar_small_letter up char_of_def bit_Suc_0_iff)
  finally show ?thesis .
qed

lemma toLowerCase_false_iff:
  "toLowerCase s = ''false'' \<longleftrightarrow>
     (\<exists>a b c d e. s = [a, b, c, d, e] \<and> (a = CHR ''f'' \<or> a = CHR ''F'') \<and> (b = CHR ''a'' \<or> b = CHR ''A'')
        \<and> (c = CHR ''l'' \<or> c = CHR ''L'') \<and> (d = CHR ''s'' \<or> d = CHR ''S'')
        \<and> (e = CHR ''e'' \<or> e = CHR ''E''))"
proof -
  have up: "\<And>c k. (of_char c :: nat) = k \<longleftrightarrow> c = char_of k \<and> k < 256"
    by (metis char_of_char nat_of_char_less_256 of_char_of mod_less)
  have "toLowerCase s = ''false'' \<longleftrightarrow>
     (\<exists>a b c d e. s = [a, b, c, d, e] \<and> lowerChar a = CHR ''f'' \<and> lowerChar b = CHR ''a''
        \<and> lowerChar c = CHR ''l'' \<and> lowerChar d = CHR ''s'' \<and> lowerChar e = CHR ''e'')"
    by (auto simp add: toLowerCase_def map_eq_Cons_conv)
  also have "\<dots> \<longleftrightarrow> (\<exists>a b c d e. s = [a, b, c, d, e] \<and> (a = CHR ''f'' \<or> a = CHR ''F'') \<and> (b = CHR ''a'' \<or> b = CHR ''A'')
        \<and> (c = CHR ''l'' \<or> c = CHR ''L'') \<and> (d = CHR ''s'' \<or> d = CHR ''S'')
        \<and> (e = CHR ''e'' \<or> e = CHR ''E''))"
    by (simp add: lowerChar_small_letter up char_of_def bit_Suc_0_iff)
  finally show ?thesis .
qed

section \<open>Value parsing\<close>

lemmas double_eval = toDouble_def floorLog2_def roundHalfEven_def Let_def compute_floorlog
lemmas text_eval = isIntText_def isFloatText_def isDigit_def digitVal_def decimal_def
  parseInt_def parseFloat_def
lemmas case_eval = toLowerCase_def lowerChar_def char_of_def bit_Suc_0_iff

lemma parseValue_int: "isIntText s \<Longrightarrow> parseValue (Str s) = Num (toDouble (decimal s) 1)"
  by (simp add: parseValue.simps parseInt_def)

lemma parseValue_float:
  assumes "list_all isDigit a" and "list_all isDigit b" and "b \<noteq> []"
  shows "parseValue (Str (a @ ''.'' @ b)) = Num (toDouble (decimal (a @ b)) (10 ^ length b))"
proof -
  have fl: "isFloatText (a @ ''.'' @ b)"
    using assms isFloatText_iff by blast
  then have "\<not> isIntText (a @ ''.'' @ b)"
    by (rule isFloatText_not_int)
  then show ?thesis
    using fl float_parts [OF assms(1), of b] by (simp add: parseValue.simps parseFloat_def)
qed

lemma parseValue_other_chars:
  assumes "\<not> list_all (\<lambda>c. isDigit c \<or> c = CHR ''.'') s" and "\<not> list_all (\<lambda>c. \<not> isDigit c) s"
  shows "parseValue (Str s) = Str s"
proof -
  have "\<not> isIntText s" and "\<not> isFloatText s"
    using assms(1) isIntText_chars isFloatText_chars by blast+
  moreover obtain c where c: "c \<in> set s" "isDigit c"
    using assms(2) by (auto simp add: list_all_iff)
  then have "c \<in> set (toLowerCase s)"
    by (simp add: toLowerCase_digit)
  then have "toLowerCase s \<noteq> ''true''" and "toLowerCase s \<noteq> ''false''"
    using c(2) by (auto simp add: isDigit_def)
  ultimately show ?thesis by (simp add: parseValue.simps)
qed

lemma parseValue_trailing_dot: "parseValue (Str (t @ ''.'')) = Str (t @ ''.'')"
proof -
  have "\<not> isIntText (t @ ''.'')" and "\<not> isFloatText (t @ ''.'')"
    using isIntText_last [of "t @ ''.''"] isFloatText_last [of "t @ ''.''"] not_digit_dot by auto
  moreover have "last (toLowerCase (t @ ''.'')) = CHR ''.''"
    by (simp add: toLowerCase_def lowerChar_below_letters)
  then have "toLowerCase (t @ ''.'') \<noteq> ''true''" and "toLowerCase (t @ ''.'') \<noteq> ''false''"
    by auto
  ultimately show ?thesis by (simp add: parseValue.simps)
qed

text \<open>
  C5, as amended. A text of digits becomes the double nearest to the integer it denotes,
  which is that integer itself whenever it is at most \<open>2^53\<close> ("42" gives 42, "007"
  gives 7). A text of optional digits, a dot and digits becomes the double nearest to the
  decimal fraction it denotes (".5" gives 0.5, "3.14" gives the double 3.14). A text
  ending in a dot, and a text holding a digit together with a character that is neither a
  digit nor a dot (a sign, an exponent letter), stay as they are. That \<open>toDouble\<close> is
  the nearest double is \<open>toDouble_nearest\<close>.
\<close>

theorem parseValue_numbers:
  "(isIntText s \<longrightarrow> parseValue (Str s) = Num (toDouble (decimal s) 1))
   \<and> (decimal s \<le> 2 ^ 53 \<longrightarrow> toDouble (decimal s) 1 = Finite (of_nat (decimal s)))
   \<and> (list_all isDigit a \<and> list_all isDigit b \<and> b \<noteq> [] \<longrightarrow>
        parseValue (Str (a @ ''.'' @ b)) = Num (toDouble (decimal (a @ b)) (10 ^ length b)))
   \<and> (isFloatText s \<longleftrightarrow>
        (\<exists>a b. s = a @ ''.'' @ b \<and> list_all isDigit a \<and> list_all isDigit b \<and> b \<noteq> []))
   \<and> parseValue (Str (t @ ''.'')) = Str (t @ ''.'')
   \<and> (\<not> list_all (\<lambda>c. isDigit c \<or> c = CHR ''.'') u \<and> \<not> list_all (\<lambda>c. \<not> isDigit c) u \<longrightarrow>
        parseValue (Str u) = Str u)
   \<and> parseValue (Str ''42'') = Num (Finite 42)
   \<and> parseValue (Str ''007'') = Num (Finite 7)
   \<and> parseValue (Str ''.5'') = Num (Finite (1 / 2))
   \<and> parseValue (Str ''3.14'') = Num (toDouble 314 100)
   \<and> toDouble 314 100 = Finite (7070651414971679 / 2 ^ 51)
   \<and> parseValue (Str ''5.'') = Str ''5.''
   \<and> parseValue (Str ''-3'') = Str ''-3''
   \<and> parseValue (Str ''1e5'') = Str ''1e5''"
proof -
  have "parseValue (Str ''42'') = Num (toDouble 42 1)"
    and "parseValue (Str ''007'') = Num (toDouble 7 1)"
    and "parseValue (Str ''.5'') = Num (toDouble 5 10)"
    and "parseValue (Str ''3.14'') = Num (toDouble 314 100)"
    by (simp_all add: parseValue.simps text_eval)
  moreover have "toDouble 42 1 = Finite 42" and "toDouble 7 1 = Finite 7"
    and "toDouble 5 10 = Finite (1 / 2)"
    and "toDouble 314 100 = Finite (7070651414971679 / 2 ^ 51)"
    by (simp_all add: double_eval)
  moreover have "parseValue (Str ''5.'') = Str ''5.''"
    using parseValue_trailing_dot [of "''5''"] by simp
  moreover have "parseValue (Str ''-3'') = Str ''-3''"
    and "parseValue (Str ''1e5'') = Str ''1e5''"
    by (simp_all add: parseValue_other_chars isDigit_def)
  ultimately show ?thesis
    using parseValue_int [of s] toDouble_exact [of "decimal s"] parseValue_float [of a b]
      parseValue_trailing_dot [of t] parseValue_other_chars [of u] isFloatText_iff [of s]
    by simp
qed

theorem parseValue_numbers_witness:
  "isIntText ''9007199254740992''
   \<and> decimal ''9007199254740992'' \<le> 2 ^ 53
   \<and> parseValue (Str ''9007199254740992'') = Num (Finite 9007199254740992)
   \<and> list_all isDigit ''10'' \<and> list_all isDigit ''25'' \<and> ''25'' \<noteq> []
   \<and> parseValue (Str ''10.25'') = Num (toDouble 1025 100)
   \<and> parseValue (Str ''12.'') = Str ''12.''
   \<and> \<not> list_all (\<lambda>c. isDigit c \<or> c = CHR ''.'') ''+7''
   \<and> \<not> list_all (\<lambda>c. \<not> isDigit c) ''+7''
   \<and> parseValue (Str ''+7'') = Str ''+7''"
proof -
  have "isIntText ''9007199254740992''" and "decimal ''9007199254740992'' = 9007199254740992"
    and "decimal ''1025'' = 1025"
    and "list_all isDigit ''10''" and "list_all isDigit ''25''"
    and "\<not> list_all (\<lambda>c. isDigit c \<or> c = CHR ''.'') ''+7''" and "\<not> list_all (\<lambda>c. \<not> isDigit c) ''+7''"
    by (simp_all add: text_eval)
  then show ?thesis
    using parseValue_numbers [of "''9007199254740992''" "''10''" "''25''" "''12''" "''+7''"]
    by simp
qed

text \<open>
  C5 as stated fails: the text "9007199254740993" matches \<open>^\d+$\<close>, and its value is not
  the integer it denotes but the neighbouring double.
\<close>

theorem parseValue_big_integer_counterexample:
  "isIntText ''9007199254740993''
   \<and> decimal ''9007199254740993'' = 9007199254740993
   \<and> parseValue (Str ''9007199254740993'') = Num (Finite 9007199254740992)
   \<and> parseValue (Str ''9007199254740993'') \<noteq> Num (Finite (of_nat (decimal ''9007199254740993'')))"
proof -
  have i: "isIntText ''9007199254740993''" and d: "decimal ''9007199254740993'' = 9007199254740993"
    by (simp_all add: text_eval)
  have "toDouble 9007199254740993 1 = Finite 9007199254740992"
    by (simp add: double_eval)
  then have "parseValue (Str ''9007199254740993'') = Num (Finite 9007199254740992)"
    using i d by (simp add: parseValue_int)
  then show ?thesis
    using i d by simp
qed

text \<open>
  C6. \<open>null\<close> and \<open>undefined\<close> become \<open>null\<close>. A text whose lower-case form is
  "true" or "false" becomes that boolean (such a text never matches a numeric pattern).
  Every other value is returned as it is: numbers, booleans, arrays and objects, and any
  text that matches neither numeric pattern nor a boolean word.
\<close>

theorem parseValue_passes:
  "parseValue Null = Null
   \<and> parseValue Undefined = Null
   \<and> (toLowerCase s = ''true'' \<longrightarrow> parseValue (Str s) = Bool True)
   \<and> (toLowerCase s = ''false'' \<longrightarrow> parseValue (Str s) = Bool False)
   \<and> (\<not> isIntText s \<and> \<not> isFloatText s \<and> toLowerCase s \<noteq> ''true'' \<and> toLowerCase s \<noteq> ''false'' \<longrightarrow>
        parseValue (Str s) = Str s)
   \<and> parseValue (Num n) = Num n
   \<and> parseValue (Bool b) = Bool b
   \<and> parseValue (Arr xs) = Arr xs
   \<and> parseValue (Obj ps) = Obj ps
   \<and> parseValue (Str ''true'') = Bool True
   \<and> parseValue (Str ''TRUE'') = Bool True
   \<and> parseValue (Str ''True'') = Bool True
   \<and> parseValue (Str ''false'') = Bool False
   \<and> (toLowerCase s = ''true'' \<longleftrightarrow>
        (\<exists>a b c d. s = [a, b, c, d] \<and> (a = CHR ''t'' \<or> a = CHR ''T'') \<and> (b = CHR ''r'' \<or> b = CHR ''R'')
           \<and> (c = CHR ''u'' \<or> c = CHR ''U'') \<and> (d = CHR ''e'' \<or> d = CHR ''E'')))
   \<and> (toLowerCase s = ''false'' \<longleftrightarrow>
        (\<exists>a b c d e. s = [a, b, c, d, e] \<and> (a = CHR ''f'' \<or> a = CHR ''F'') \<and> (b = CHR ''a'' \<or> b = CHR ''A'')
           \<and> (c = CHR ''l'' \<or> c = CHR ''L'') \<and> (d = CHR ''s'' \<or> d = CHR ''S'')
           \<and> (e = CHR ''e'' \<or> e = CHR ''E'')))"
proof -
  have low: "toLowerCase s = ''true'' \<longrightarrow> parseValue (Str s) = Bool True"
    "toLowerCase s = ''false'' \<longrightarrow> parseValue (Str s) = Bool False"
    using toLowerCase_true_head [of s] by (auto simp add: parseValue.simps)
  have "toLowerCase ''true'' = ''true''" and "toLowerCase ''TRUE'' = ''true''"
    and "toLowerCase ''True'' = ''true''" and "toLowerCase ''false'' = ''false''"
    by (simp_all add: case_eval)
  then have "parseValue (Str ''true'') = Bool True" and "parseValue (Str ''TRUE'') = Bool True"
    and "parseValue (Str ''True'') = Bool True" and "parseValue (Str ''false'') = Bool False"
    by (simp_all add: parseValue.simps text_eval)
  then have "parseValue Null = Null
   \<and> parseValue Undefined = Null
   \<and> (toLowerCase s = ''true'' \<longrightarrow> parseValue (Str s) = Bool True)
   \<and> (toLowerCase s = ''false'' \<longrightarrow> parseValue (Str s) = Bool False)
   \<and> (\<not> isIntText s \<and> \<not> isFloatText s \<and> toLowerCase s \<noteq> ''true'' \<and> toLowerCase s \<noteq> ''false'' \<longrightarrow>
        parseValue (Str s) = Str s)
   \<and> parseValue (Num n) = Num n
   \<and> parseValue (Bool b) = Bool b
   \<and> parseValue (Arr xs) = Arr xs
   \<and> parseValue (Obj ps) = Obj ps
   \<and> parseValue (Str ''true'') = Bool True
   \<and> parseValue (Str ''TRUE'') = Bool True
   \<and> parseValue (Str ''True'') = Bool True
   \<and> parseValue (Str ''false'') = Bool False"
    using low by (simp add: parseValue.simps)
  then show ?thesis
    using toLowerCase_true_iff [of s] toLowerCase_false_iff [of s] by blast
qed

theorem parseValue_passes_witness:
  "toLowerCase ''tRuE'' = ''true''
   \<and> parseValue (Str ''tRuE'') = Bool True
   \<and> toLowerCase ''FALSE'' = ''false''
   \<and> parseValue (Str ''FALSE'') = Bool False
   \<and> \<not> isIntText ''hello'' \<and> \<not> isFloatText ''hello''
   \<and> toLowerCase ''hello'' \<noteq> ''true'' \<and> toLowerCase ''hello'' \<noteq> ''false''
   \<and> parseValue (Str ''hello'') = Str ''hello''
   \<and> parseValue (Num (Finite 42)) = Num (Finite 42)
   \<and> parseValue (Bool True) = Bool True"
proof -
  have "toLowerCase ''tRuE'' = ''true''" and "toLowerCase ''FALSE'' = ''false''"
    and "toLowerCase ''hello'' = ''hello''"
    by (simp_all add: case_eval)
  moreover have "\<not> isIntText ''hello''" and "\<not> isFloatText ''hello''"
    by (simp_all add: text_eval)
  ultimately show ?thesis
    using parseValue_passes [of "''tRuE''" "Finite 42" True] parseValue_passes [of "''FALSE''"]
      parseValue_passes [of "''hello''"]
    by simp
qed

section \<open>Worked examples\<close>

lemmas header_eval = trim_def isWhiteSpace_def
lemmas convert_eval = convertToJsonWith_def headerAt_def setProperty_def setSheet_def

lemma parseValue_example_texts:
  "parseValue (Str ''Alice'') = Str ''Alice''" "parseValue (Str ''Bob'') = Str ''Bob''"
  "parseValue (Str ''true'') = Bool True" "parseValue (Str ''false'') = Bool False"
  by (simp_all add: parseValue.simps text_eval case_eval)

lemma parseValue_example_ints:
  "parseValue (Str ''30'') = Num (Finite 30)" "parseValue (Str ''25'') = Num (Finite 25)"
proof -
  have "isIntText ''30''" and "decimal ''30'' = 30" and "isIntText ''25''" and "decimal ''25'' = 25"
    by (simp_all add: text_eval)
  then show "parseValue (Str ''30'') = Num (Finite 30)" "parseValue (Str ''25'') = Num (Finite 25)"
    using parseValue_int [of "''30''"] toDouble_exact [of 30]
      parseValue_int [of "''25''"] toDouble_exact [of 25]
    by simp_all
qed

lemma toDouble_examples:
  "toDouble 1 10 = Finite (3602879701896397 / 2 ^ 55)"
  "toDouble 9007199254740993 1 = Finite 9007199254740992"
  "toDouble 9007199254740995 1 = Finite 9007199254740996"
  by (simp_all add: double_eval)

text \<open>
  C3 on the TypeScript source. The guard \<open>headers[index] === "string"\<close> holds for no
  header of the example, so both records come out empty. The claim states the result of
  the JavaScript copy, which \<open>readme_example_js\<close> below computes.
\<close>

theorem readme_example_ts:
  "convertToJson (Obj [(''Sheet1'',
      Arr [Arr [Str ''Name'', Str ''Age'', Str ''Active''],
           Arr [Str ''Alice'', Str ''30'', Str ''true''],
           Arr [Str ''Bob'', Str ''25'', Str ''false'']])])
   = Inr (Object [(''Sheet1'', [Object [] ObjectPrototype, Object [] ObjectPrototype])]
       ObjectPrototype)"
  by (simp add: convertToJson_def convert_eval reducer_ts_def header_eval)

lemma readme_example_js:
  "convertToJson_js (Obj [(''Sheet1'',
      Arr [Arr [Str ''Name'', Str ''Age'', Str ''Active''],
           Arr [Str ''Alice'', Str ''30'', Str ''true''],
           Arr [Str ''Bob'', Str ''25'', Str ''false'']])])
   = Inr (Object [(''Sheet1'',
       [Object [(''Name'', Str ''Alice''), (''Age'', Num (Finite 30)), (''Active'', Bool True)]
          ObjectPrototype,
        Object [(''Name'', Str ''Bob''), (''Age'', Num (Finite 25)), (''Active'', Bool False)]
          ObjectPrototype])]
       ObjectPrototype)"
  by (simp add: convertToJson_js_def convert_eval reducer_js_def header_eval
      parseValue_example_texts parseValue_example_ints)

text \<open>
  C8. An argument that is \<open>undefined\<close>, \<open>null\<close>, a boolean, a number or a text, and an
  object or array without entries, gives the empty result and no error, in the
  TypeScript source and in the JavaScript copy.
\<close>

theorem not_a_sheet_set:
  "convertToJson Undefined = Inr (Object [] ObjectPrototype)
   \<and> convertToJson Null = Inr (Object [] ObjectPrototype)
   \<and> convertToJson (Bool b) = Inr (Object [] ObjectPrototype)
   \<and> convertToJson (Num n) = Inr (Object [] ObjectPrototype)
   \<and> convertToJson (Str s) = Inr (Object [] ObjectPrototype)
   \<and> convertToJson (Obj []) = Inr (Object [] ObjectPrototype)
   \<and> convertToJson (Arr []) = Inr (Object [] ObjectPrototype)
   \<and> convertToJson_js Undefined = Inr (Object [] ObjectPrototype)
   \<and> convertToJson_js Null = Inr (Object [] ObjectPrototype)
   \<and> convertToJson_js (Bool b) = Inr (Object [] ObjectPrototype)
   \<and> convertToJson_js (Num n) = Inr (Object [] ObjectPrototype)
   \<and> convertToJson_js (Str s) = Inr (Object [] ObjectPrototype)
   \<and> convertToJson_js (Obj []) = Inr (Object [] ObjectPrototype)
   \<and> convertToJson_js (Arr []) = Inr (Object [] ObjectPrototype)"
  by (simp add: convertToJson_def convertToJson_js_def convertToJsonWith_def)

text \<open>
  C1 on the TypeScript source. Headers "a" and "b" are valid and the data row has both
  cells, yet the record has no key: the key set is not the set of header texts (the
  only key this guard ever admits is "string", see \<open>reduce_ts_keys\<close>). The JavaScript
  copy does what the claim says wherever neither the sheet nor a header is named
  "__proto__", see \<open>convertToJson_js_records\<close>.
\<close>

theorem keys_example_ts:
  "convertToJson (Obj [(''S'', Arr [Arr [Str ''a'', Str ''b''], Arr [Str ''x'', Str ''y'']])])
   = Inr (Object [(''S'', [Object [] ObjectPrototype])] ObjectPrototype)"
  by (simp add: convertToJson_def convert_eval reducer_ts_def header_eval)

lemma array_argument_example:
  "convertToJson_js (Arr [Arr [Arr [Str ''a''], Arr [Null]]])
   = Inr (Object [(''0'', [Object [(''a'', Null)] ObjectPrototype])] ObjectPrototype)"
  by (simp add: convertToJson_js_def convert_eval reducer_js_def header_eval showNat.simps
      digitChar_def char_of_def bit_Suc_0_iff)

text \<open>
  A store under the name "__proto__" adds no property: it replaces the prototype when the
  value is an object or \<open>null\<close>, and does nothing when it is a text.
\<close>

lemma proto_key_examples:
  "convertToJson_js (Obj [(''S'', Arr [Arr [Str ''__proto__'', Str ''k''], Arr [Str ''x'', Str ''y'']])])
   = Inr (Object [(''S'', [Object [(''k'', Str ''y'')] ObjectPrototype])] ObjectPrototype)"
  "convertToJson_js (Obj [(''S'', Arr [Arr [Str ''__proto__'', Str ''k''], Arr [Null, Str ''y'']])])
   = Inr (Object [(''S'', [Object [(''k'', Str ''y'')] NullPrototype])] ObjectPrototype)"
  "convertToJson_js (Obj [(''__proto__'', Arr [Arr [Str ''k''], Arr [Str ''y'']])])
   = Inr (Object [] (ValuePrototype [Object [(''k'', Str ''y'')] ObjectPrototype]))"
proof -
  have cells: "parseValue (Str ''x'') = Str ''x''" "parseValue (Str ''y'') = Str ''y''"
    by (simp_all add: parseValue.simps text_eval case_eval)
  show "convertToJson_js (Obj [(''S'', Arr [Arr [Str ''__proto__'', Str ''k''], Arr [Str ''x'', Str ''y'']])])
   = Inr (Object [(''S'', [Object [(''k'', Str ''y'')] ObjectPrototype])] ObjectPrototype)"
    by (simp add: convertToJson_js_def convert_eval reducer_js_def header_eval cells)
  show "convertToJson_js (Obj [(''S'', Arr [Arr [Str ''__proto__'', Str ''k''], Arr [Null, Str ''y'']])])
   = Inr (Object [(''S'', [Object [(''k'', Str ''y'')] NullPrototype])] ObjectPrototype)"
    by (simp add: convertToJson_js_def convert_eval reducer_js_def header_eval cells)
  show "convertToJson_js (Obj [(''__proto__'', Arr [Arr [Str ''k''], Arr [Str ''y'']])])
   = Inr (Object [] (ValuePrototype [Object [(''k'', Str ''y'')] ObjectPrototype]))"
    by (simp add: convertToJson_js_def convert_eval reducer_js_def header_eval cells)
qed

section \<open>Stores\<close>

lemma setProperty_other:
  "key \<noteq> ''__proto__'' \<Longrightarrow>
     setProperty key v obj = Object (AList.update key v (props obj)) (proto obj)"
  by (simp add: setProperty_def)

lemma keys_setProperty:
  "fst ` set (props (setProperty key v obj)) \<subseteq> insert key (fst ` set (props obj))"
  by (cases v) (auto simp add: setProperty_def dom_update)

lemma keys_setProperty_other:
  "key \<noteq> ''__proto__'' \<Longrightarrow>
     fst ` set (props (setProperty key v obj)) = insert key (fst ` set (props obj))"
  by (auto simp add: setProperty_other dom_update)

lemma setSheet_other:
  "key \<noteq> ''__proto__'' \<Longrightarrow>
     setSheet key records result = Object (AList.update key records (props result)) (proto result)"
  by (simp add: setSheet_def)

lemma map_of_setSheet_other:
  "k \<noteq> key \<Longrightarrow> map_of (props (setSheet key records result)) k = map_of (props result) k"
  by (simp add: setSheet_def update_conv')

lemma map_of_setSheet_same:
  "key \<noteq> ''__proto__'' \<Longrightarrow> map_of (props (setSheet key records result)) key = Some records"
  by (simp add: setSheet_other update_conv')

text \<open>
  \<open>result\<close> starts as \<open>{}\<close>; it never gets a property named "__proto__" and never the
  prototype \<open>null\<close>, so a store under "__proto__" always goes to the setter.
\<close>

lemma setSheet_proto:
  assumes "map_of (props result) ''__proto__'' = None" and "proto result \<noteq> NullPrototype"
  shows "setSheet ''__proto__'' records result = Object (props result) (ValuePrototype records)"
  using assms by (simp add: setSheet_def)



section \<open>Header validation\<close>



lemma headersLoop_iff:
  "headersLoop seen hs \<longleftrightarrow>
     list_all (\<lambda>h. \<exists>s. h = Str s \<and> trim s \<noteq> []) hs \<and> distinct hs \<and> set hs \<inter> seen = {}"
proof (induction hs arbitrary: seen)
  case Nil
  then show ?case by simp
next
  case (Cons h hs)
  show ?case
  proof (cases h)
    case (Str s)
    then show ?thesis
      using Cons.IH [of "insert h seen"] by auto
  qed simp_all
qed

lemma validateHeaders_iff:
  "validateHeaders h \<longleftrightarrow>
     (\<exists>hs. h = Arr hs \<and> list_all (\<lambda>x. \<exists>s. x = Str s \<and> trim s \<noteq> []) hs \<and> distinct hs)"
  by (cases h) (simp_all add: headersLoop_iff)

lemma validateHeaders_text:
  assumes "validateHeaders (Arr hs)" and "i < length hs"
  shows "\<exists>s. hs ! i = Str s"
  using assms by (auto simp add: validateHeaders_iff list_all_length)

section \<open>The row loop\<close>

lemma headerAt_past_end: "length hs \<le> i \<Longrightarrow> headerAt hs i = Undefined"
  by (simp add: headerAt_def)

lemma reducer_ts_past_end: "length hs \<le> i \<Longrightarrow> reducer_ts hs obj v i = obj"
  by (simp add: reducer_ts_def headerAt_past_end)

lemma reducer_js_past_end: "length hs \<le> i \<Longrightarrow> reducer_js hs obj v i = obj"
  by (simp add: reducer_js_def headerAt_past_end)

lemma reduce_past_end:
  assumes "\<And>obj v j. n \<le> j \<Longrightarrow> cb obj v j = obj" and "n \<le> i"
  shows "reduce cb obj i cells = obj"
  using assms(2) by (induction cells arbitrary: i) (simp_all add: assms(1))

lemma reduce_take:
  assumes "\<And>obj v j. n \<le> j \<Longrightarrow> cb obj v j = obj"
  shows "reduce cb obj i (take (n - i) cells) = reduce cb obj i cells"
proof (induction cells arbitrary: obj i)
  case Nil
  then show ?case by simp
next
  case (Cons v vs)
  show ?case
  proof (cases "i < n")
    case True
    then have "take (n - i) (v # vs) = v # take (n - Suc i) vs"
      by (simp add: take_Cons')
    then show ?thesis
      using Cons.IH [of "cb obj v i" "Suc i"] by simp
  next
    case False
    then have "n \<le> i" by simp
    then show ?thesis
      using reduce_past_end [of n cb i obj "v # vs", OF assms] by simp
  qed
qed

lemma rowToRecord_clip:
  assumes "\<And>obj v j. n \<le> j \<Longrightarrow> cb obj v j = obj"
  shows "rowToRecord cb (clipRow n row) = rowToRecord cb row"
  using reduce_take [of n cb "Object [] ObjectPrototype" 0, OF assms] by (cases row) simp_all

lemma mapRows_clip:
  assumes "\<And>obj v j. n \<le> j \<Longrightarrow> cb obj v j = obj"
  shows "mapRows cb (map (clipRow n) rows) = mapRows cb rows"
  by (induction rows) (simp_all add: rowToRecord_clip [of n cb, OF assms] split: sum.splits)

lemma convertSheet_clip:
  assumes "\<And>hs obj v j. length hs \<le> j \<Longrightarrow> cb hs obj v j = obj"
  shows "convertSheet cb sheet (clipSheet grid) = convertSheet cb sheet grid"
proof (cases "(cb, sheet, grid)" rule: convertSheet.cases)
  case (1 callback sheet' headers row rows)
  then show ?thesis
    using mapRows_clip [of "length (elements headers)" "cb (elements headers)" "row # rows"] assms
    by simp
qed simp_all

lemma sheetsLoop_clip:
  assumes "\<And>hs obj v j. length hs \<le> j \<Longrightarrow> cb hs obj v j = obj"
  shows "sheetsLoop cb result (map (apsnd clipSheet) es) = sheetsLoop cb result es"
  by (induction es arbitrary: result)
    (auto simp add: convertSheet_clip [of cb, OF assms] split: sum.splits)

lemma convertToJsonWith_clip:
  assumes "\<And>hs obj v j. length hs \<le> j \<Longrightarrow> cb hs obj v j = obj"
  shows "convertToJsonWith cb (Obj (map (apsnd clipSheet) es)) = convertToJsonWith cb (Obj es)"
  by (simp add: convertToJsonWith_def sheetsLoop_clip [of cb, OF assms])

section \<open>The loop over the sheets\<close>

lemma hasDataRows_iff: "hasDataRows g \<longleftrightarrow> (\<exists>headers row rows. g = Arr (headers # row # rows))"
proof (cases g)
  case (Arr xs)
  then show ?thesis
    by (cases xs; cases "tl xs") (auto simp add: hasDataRows_def)
qed (simp_all add: hasDataRows_def)

lemma convertSheet_short: "\<not> hasDataRows g \<Longrightarrow> convertSheet cb sheet g = Inr []"
  by (cases "(cb, sheet, g)" rule: convertSheet.cases) (simp_all add: hasDataRows_iff)


lemma sheetsLoop_keeps:
  "sheetsLoop cb result es = Inr out \<Longrightarrow> k \<notin> fst ` set es \<Longrightarrow>
     map_of (props out) k = map_of (props result) k"
proof (induction es arbitrary: result)
  case Nil
  then show ?case by simp
next
  case (Cons p es)
  obtain sheet grid where p: "p = (sheet, grid)" by (cases p)
  from Cons.prems obtain records where r: "convertSheet cb sheet grid = Inr records"
    and rest: "sheetsLoop cb (setSheet sheet records result) es = Inr out"
    by (auto simp add: p split: sum.splits)
  have "map_of (props out) k = map_of (props (setSheet sheet records result)) k"
    using Cons.IH [OF rest] Cons.prems(2) by simp
  then show ?case
    using Cons.prems(2) by (simp add: p map_of_setSheet_other)
qed

lemma sheetsLoop_value:
  "distinct (map fst es) \<Longrightarrow> sheetsLoop cb result es = Inr out \<Longrightarrow> (sheet, grid) \<in> set es \<Longrightarrow>
   sheet \<noteq> ''__proto__'' \<Longrightarrow>
     \<exists>records. convertSheet cb sheet grid = Inr records \<and> map_of (props out) sheet = Some records"
proof (induction es arbitrary: result)
  case Nil
  then show ?case by simp
next
  case (Cons p es)
  obtain s g where p: "p = (s, g)" by (cases p)
  from Cons.prems(2) obtain records where r: "convertSheet cb s g = Inr records"
    and rest: "sheetsLoop cb (setSheet s records result) es = Inr out"
    by (auto simp add: p split: sum.splits)
  show ?case
  proof (cases "(sheet, grid) = (s, g)")
    case True
    have "s \<notin> fst ` set es"
      using Cons.prems(1) by (simp add: p)
    then have "map_of (props out) s = Some records"
      using sheetsLoop_keeps [OF rest] True Cons.prems(4) by (simp add: map_of_setSheet_same)
    then show ?thesis
      using True r by simp
  next
    case False
    then have "(sheet, grid) \<in> set es"
      using Cons.prems(3) by (auto simp add: p)
    then show ?thesis
      using Cons.IH [OF _ rest _ Cons.prems(4)] Cons.prems(1) by simp
  qed
qed

lemma sheetsLoop_success_iff:
  "(\<exists>out. sheetsLoop cb result es = Inr out) \<longleftrightarrow>
     (\<forall>(sheet, grid) \<in> set es. \<exists>records. convertSheet cb sheet grid = Inr records)"
proof (induction es arbitrary: result)
  case Nil
  then show ?case by simp
next
  case (Cons p es)
  obtain s g where p: "p = (s, g)" by (cases p)
  show ?case
  proof (cases "convertSheet cb s g")
    case (Inl e)
    then show ?thesis by (auto simp add: p)
  next
    case (Inr records)
    then show ?thesis
      using Cons.IH [of "setSheet s records result"] by (simp add: p)
  qed
qed



text \<open>The prototype of the result is that of \<open>{}\<close> unless a sheet is named "__proto__".\<close>

lemma sheetsLoop_proto:
  "sheetsLoop cb result es = Inr out \<Longrightarrow> ''__proto__'' \<notin> fst ` set es \<Longrightarrow>
     proto out = proto result"
proof (induction es arbitrary: result)
  case Nil
  then show ?case by simp
next
  case (Cons p es)
  obtain s g where p: "p = (s, g)" by (cases p)
  from Cons.prems(1) obtain records where
    rest: "sheetsLoop cb (setSheet s records result) es = Inr out"
    by (auto simp add: p split: sum.splits)
  have "s \<noteq> ''__proto__''"
    using Cons.prems(2) by (auto simp add: p)
  then have "proto (setSheet s records result) = proto result"
    by (simp add: setSheet_other)
  then show ?case
    using Cons.IH [OF rest] Cons.prems(2) by simp
qed

section \<open>Rows that are arrays\<close>

lemma mapRows_arrays:
  "list_all isArray rows \<Longrightarrow> \<exists>records. mapRows cb rows = Inr records \<and> length records = length rows"
proof (induction rows)
  case Nil
  then show ?case by simp
next
  case (Cons row rows)
  then obtain cells where "row = Arr cells"
    by (cases row) simp_all
  then show ?case
    using Cons by auto
qed


lemma convertSheet_good:
  "rowsAreArrays g \<Longrightarrow> \<not> badHeaders g \<Longrightarrow> \<exists>records. convertSheet cb sheet g = Inr records"
proof (cases "(cb, sheet, g)" rule: convertSheet.cases)
  case (1 callback sheet' headers row rows)
  assume "rowsAreArrays g" and "\<not> badHeaders g"
  then show ?thesis
    using 1 mapRows_arrays [of "row # rows" "cb (elements headers)"] by auto
qed simp_all


lemma convertToJsonWith_Obj:
  "convertToJsonWith cb (Obj es) = sheetsLoop cb (Object [] ObjectPrototype) es"
  by (cases es) (simp_all add: convertToJsonWith_def)

section \<open>Keys of a record\<close>

lemma headerTexts_take_drop:
  "i < length hs \<Longrightarrow>
     headerTexts (take (Suc n) (drop i hs)) =
       (case hs ! i of Str s \<Rightarrow> [s] | _ \<Rightarrow> []) @ headerTexts (take n (drop (Suc i) hs))"
  by (cases "hs ! i") (simp_all add: Cons_nth_drop_Suc [symmetric])

lemma headerTexts_mem: "s \<in> set (headerTexts hs) \<longleftrightarrow> Str s \<in> set hs"
  by (induction hs rule: headerTexts.induct) auto

text \<open>
  The JavaScript guard admits every header text as a key. Where no header is named
  "__proto__", the keys of the record are the header texts of the positions the row has.
\<close>

lemma reduce_js_keys:
  assumes "''__proto__'' \<notin> set (headerTexts hs)"
  shows "fst ` set (props (reduce (reducer_js hs) obj i cells)) =
     fst ` set (props obj) \<union> set (headerTexts (take (length cells) (drop i hs)))"
proof (induction cells arbitrary: obj i)
  case Nil
  then show ?case by simp
next
  case (Cons v vs)
  show ?case
  proof (cases "i < length hs")
    case True
    show ?thesis
    proof (cases "hs ! i")
      case (Str s)
      then have "Str s \<in> set hs"
        using True nth_mem [of i hs] by simp
      then have "s \<noteq> ''__proto__''"
        using assms by (auto simp add: headerTexts_mem)
      then have "fst ` set (props (reducer_js hs obj v i)) = insert s (fst ` set (props obj))"
        using True Str by (simp add: reducer_js_def headerAt_def keys_setProperty_other)
      then show ?thesis
        using Cons.IH [of "reducer_js hs obj v i" "Suc i"] True Str
        by (auto simp add: headerTexts_take_drop)
    qed (use True Cons.IH [of obj "Suc i"] in
        \<open>simp_all add: headerTexts_take_drop reducer_js_def headerAt_def\<close>)
  next
    case False
    then show ?thesis
      using Cons.IH [of obj "Suc i"] by (simp add: reducer_js_past_end)
  qed
qed

text \<open>In any case the keys of the record are among the header texts.\<close>

lemma reduce_js_keys_subset:
  "fst ` set (props (reduce (reducer_js hs) obj i cells))
     \<subseteq> fst ` set (props obj) \<union> set (headerTexts hs)"
proof (induction cells arbitrary: obj i)
  case Nil
  then show ?case by auto
next
  case (Cons v vs)
  have step: "fst ` set (props (reducer_js hs obj v i)) \<subseteq> fst ` set (props obj) \<union> set (headerTexts hs)"
  proof (cases "headerAt hs i")
    case (Str s)
    then have "i < length hs" and "hs ! i = Str s"
      by (auto simp add: headerAt_def split: if_splits)
    then have "s \<in> set (headerTexts hs)"
      using nth_mem [of i hs] by (simp add: headerTexts_mem)
    then show ?thesis
      using Str keys_setProperty [of s "parseValue v" obj] by (auto simp add: reducer_js_def)
  qed (auto simp add: reducer_js_def)
  have "fst ` set (props (reduce (reducer_js hs) (reducer_js hs obj v i) (Suc i) vs))
      \<subseteq> fst ` set (props (reducer_js hs obj v i)) \<union> set (headerTexts hs)"
    by (rule Cons.IH)
  then have "fst ` set (props (reduce (reducer_js hs) (reducer_js hs obj v i) (Suc i) vs))
      \<subseteq> fst ` set (props obj) \<union> set (headerTexts hs)"
    using step by blast
  then show ?case
    by (simp only: reduce.simps)
qed

text \<open>The TypeScript guard admits one key only, the text "string" itself.\<close>

lemma reduce_ts_keys:
  "fst ` set (props (reduce (reducer_ts hs) obj i cells)) \<subseteq> fst ` set (props obj) \<union> {''string''}"
proof (induction cells arbitrary: obj i)
  case Nil
  then show ?case by auto
next
  case (Cons v vs)
  have step: "fst ` set (props (reducer_ts hs obj v i)) \<subseteq> fst ` set (props obj) \<union> {''string''}"
    using keys_setProperty [of "''string''" "parseValue v" obj] by (auto simp add: reducer_ts_def)
  have "fst ` set (props (reduce (reducer_ts hs) (reducer_ts hs obj v i) (Suc i) vs))
      \<subseteq> fst ` set (props (reducer_ts hs obj v i)) \<union> {''string''}"
    by (rule Cons.IH)
  then have "fst ` set (props (reduce (reducer_ts hs) (reducer_ts hs obj v i) (Suc i) vs))
      \<subseteq> fst ` set (props obj) \<union> {''string''}"
    using step by blast
  then show ?case
    by (simp only: reduce.simps)
qed

lemma reduce_ts_keys_subset:
  "fst ` set (props (reduce (reducer_ts hs) obj i cells))
     \<subseteq> fst ` set (props obj) \<union> set (headerTexts hs)"
proof (induction cells arbitrary: obj i)
  case Nil
  then show ?case by auto
next
  case (Cons v vs)
  have step: "fst ` set (props (reducer_ts hs obj v i)) \<subseteq> fst ` set (props obj) \<union> set (headerTexts hs)"
  proof (cases "headerAt hs i = Str ''string''")
    case True
    then have "i < length hs" and "hs ! i = Str ''string''"
      by (auto simp add: headerAt_def split: if_splits)
    then have "''string'' \<in> set (headerTexts hs)"
      using nth_mem [of i hs] by (simp add: headerTexts_mem)
    then show ?thesis
      using True keys_setProperty [of "''string''" "parseValue v" obj]
      by (auto simp add: reducer_ts_def)
  qed (auto simp add: reducer_ts_def)
  have "fst ` set (props (reduce (reducer_ts hs) (reducer_ts hs obj v i) (Suc i) vs))
      \<subseteq> fst ` set (props (reducer_ts hs obj v i)) \<union> set (headerTexts hs)"
    by (rule Cons.IH)
  then have "fst ` set (props (reduce (reducer_ts hs) (reducer_ts hs obj v i) (Suc i) vs))
      \<subseteq> fst ` set (props obj) \<union> set (headerTexts hs)"
    using step by blast
  then show ?case
    by (simp only: reduce.simps)
qed

lemma mapRows_js_keys:
  assumes "''__proto__'' \<notin> set (headerTexts hs)"
  shows "list_all isArray rows \<Longrightarrow>
     \<exists>records. mapRows (reducer_js hs) rows = Inr records
        \<and> list_all2 (\<lambda>row record. fst ` set (props record) =
              set (headerTexts (take (length (elements row)) hs))) rows records"
proof (induction rows)
  case Nil
  then show ?case by simp
next
  case (Cons row rows)
  then obtain cells where "row = Arr cells"
    by (cases row) simp_all
  then show ?case
    using Cons reduce_js_keys [OF assms, of "Object [] ObjectPrototype" 0 cells] by auto
qed

lemma headerTexts_valid:
  "validateHeaders (Arr hs) \<Longrightarrow> map Str (headerTexts hs) = hs"
proof -
  have "list_all (\<lambda>h. \<exists>s. h = Str s) hs \<Longrightarrow> map Str (headerTexts hs) = hs"
    by (induction hs) auto
  then show "validateHeaders (Arr hs) \<Longrightarrow> map Str (headerTexts hs) = hs"
    by (auto simp add: validateHeaders_iff list_all_iff)
qed

text \<open>
  What C1 says, for the JavaScript copy: one record per data row, with the header texts
  of the positions of the row as its keys. It holds of every sheet with valid headers
  where neither the sheet nor a header is named "__proto__".
\<close>

lemma convertToJson_js_records:
  assumes "distinct (map fst es)"
    and "\<forall>(sheet, grid) \<in> set es. hasDataRows grid \<and> rowsAreArrays grid \<and> \<not> badHeaders grid"
    and "(sheet, Arr (Arr hs # rows)) \<in> set es"
    and "sheet \<noteq> ''__proto__''" and "''__proto__'' \<notin> set (headerTexts hs)"
  shows "\<exists>out records. convertToJson_js (Obj es) = Inr out
           \<and> map_of (props out) sheet = Some records
           \<and> list_all2 (\<lambda>row record. fst ` set (props record) =
                 set (headerTexts (take (length (elements row)) hs))) rows records
           \<and> map Str (headerTexts hs) = hs"
proof -
  have "\<forall>(sheet, grid) \<in> set es. \<exists>records. convertSheet reducer_js sheet grid = Inr records"
    using assms(2) convertSheet_good by blast
  then obtain out where out: "sheetsLoop reducer_js (Object [] ObjectPrototype) es = Inr out"
    using sheetsLoop_success_iff [of reducer_js "Object [] ObjectPrototype" es] by blast
  then obtain records where r: "convertSheet reducer_js sheet (Arr (Arr hs # rows)) = Inr records"
    and m: "map_of (props out) sheet = Some records"
    using sheetsLoop_value [OF assms(1) out assms(3,4)] by blast
  have shape: "hasDataRows (Arr (Arr hs # rows))" "rowsAreArrays (Arr (Arr hs # rows))"
    "\<not> badHeaders (Arr (Arr hs # rows))"
    using assms(2,3) by auto
  then obtain row rest where rows: "rows = row # rest"
    by (auto simp add: hasDataRows_iff)
  have valid: "validateHeaders (Arr hs)"
    using shape(3) by (simp add: rows)
  have "list_all isArray rows"
    using shape(2) by simp
  then obtain records' where "mapRows (reducer_js hs) rows = Inr records'"
    and keys: "list_all2 (\<lambda>row record. fst ` set (props record) =
              set (headerTexts (take (length (elements row)) hs))) rows records'"
    using mapRows_js_keys [OF assms(5)] by blast
  then have "records' = records"
    using r valid by (simp add: rows)
  then show ?thesis
    using out m keys headerTexts_valid [OF valid]
    by (simp add: convertToJson_js_def convertToJsonWith_Obj)
qed

section \<open>The guard on the header cell\<close>

lemma reduce_nocheck_fits:
  assumes "list_all (\<lambda>h. \<exists>s. h = Str s) hs"
  shows "i + length cells \<le> length hs \<Longrightarrow>
     reduce (reducer_nocheck ns hs) obj i cells = reduce (reducer_js hs) obj i cells"
proof (induction cells arbitrary: obj i)
  case Nil
  then show ?case by simp
next
  case (Cons v vs)
  then have "i < length hs" by simp
  then obtain s where "hs ! i = Str s"
    using assms by (auto simp add: list_all_length)
  then have "reducer_nocheck ns hs obj v i = reducer_js hs obj v i"
    using \<open>i < length hs\<close> by (simp add: reducer_nocheck_def reducer_js_def headerAt_def)
  then show ?case
    using Cons.IH [of "Suc i" "reducer_js hs obj v i"] Cons.prems by simp
qed

lemma mapRows_nocheck_fits:
  assumes "list_all (\<lambda>h. \<exists>s. h = Str s) hs"
  shows "list_all (rowFits (length hs)) rows \<Longrightarrow>
     mapRows (reducer_nocheck ns hs) rows = mapRows (reducer_js hs) rows"
proof (induction rows)
  case Nil
  then show ?case by simp
next
  case (Cons row rows)
  have "rowToRecord (reducer_nocheck ns hs) row = rowToRecord (reducer_js hs) row"
    using Cons.prems reduce_nocheck_fits [OF assms, of 0 _ ns "Object [] ObjectPrototype"]
    by (cases row) simp_all
  then show ?case
    using Cons by (simp split: sum.splits)
qed

lemma convertSheet_nocheck_fits:
  "sheetFits grid \<Longrightarrow>
     convertSheet (reducer_nocheck ns) sheet grid = convertSheet reducer_js sheet grid"
proof (cases "(reducer_js, sheet, grid)" rule: convertSheet.cases)
  case (1 callback sheet' headers row rows)
  assume fits: "sheetFits grid"
  show ?thesis
  proof (cases "validateHeaders headers")
    case True
    then obtain hs where hs: "headers = Arr hs" and "list_all (\<lambda>h. \<exists>s. h = Str s) hs"
      by (fastforce simp add: validateHeaders_iff list_all_iff)
    then show ?thesis
      using 1 fits True mapRows_nocheck_fits [of hs "row # rows" ns] by simp
  next
    case False
    then show ?thesis using 1 by simp
  qed
qed simp_all

lemma sheetsLoop_nocheck_fits:
  "list_all (\<lambda>(sheet, grid). sheetFits grid) es \<Longrightarrow>
     sheetsLoop (reducer_nocheck ns) result es = sheetsLoop reducer_js result es"
  by (induction es arbitrary: result) (auto simp add: convertSheet_nocheck_fits split: sum.splits)

section \<open>The conversion as a whole\<close>






text \<open>
  C10. Cells at or beyond the length of the header row contribute nothing and raise
  nothing: cutting every data row down to the length of its header row changes neither
  the result nor the error of a conversion, in the TypeScript source and in the
  JavaScript copy. A row that is an array always gives a record, whose keys are among the
  header texts. Past the end, \<open>headers[index]\<close> is \<open>undefined\<close> and both guards
  leave the record as it is.
\<close>

theorem extra_cells_dropped:
  "convertToJson (Obj (map (apsnd clipSheet) es)) = convertToJson (Obj es)
   \<and> convertToJson_js (Obj (map (apsnd clipSheet) es)) = convertToJson_js (Obj es)
   \<and> rowToRecord (reducer_ts hs) (Arr (take (length hs) cells)) = rowToRecord (reducer_ts hs) (Arr cells)
   \<and> rowToRecord (reducer_js hs) (Arr (take (length hs) cells)) = rowToRecord (reducer_js hs) (Arr cells)
   \<and> (\<exists>record. rowToRecord (reducer_ts hs) (Arr cells) = Inr record
          \<and> fst ` set (props record) \<subseteq> set (headerTexts hs))
   \<and> (\<exists>record. rowToRecord (reducer_js hs) (Arr cells) = Inr record
          \<and> fst ` set (props record) \<subseteq> set (headerTexts hs))
   \<and> (length hs \<le> index \<longrightarrow>
        headerAt hs index = Undefined \<and> reducer_ts hs obj v index = obj \<and> reducer_js hs obj v index = obj)"
proof -
  have ts: "\<And>hs obj v j. length hs \<le> j \<Longrightarrow> reducer_ts hs obj v j = obj"
    and js: "\<And>hs obj v j. length hs \<le> j \<Longrightarrow> reducer_js hs obj v j = obj"
    by (simp_all add: reducer_ts_past_end reducer_js_past_end)
  have "convertToJson (Obj (map (apsnd clipSheet) es)) = convertToJson (Obj es)"
    unfolding convertToJson_def using ts by (rule convertToJsonWith_clip)
  moreover have "convertToJson_js (Obj (map (apsnd clipSheet) es)) = convertToJson_js (Obj es)"
    unfolding convertToJson_js_def using js by (rule convertToJsonWith_clip)
  moreover have "rowToRecord (reducer_ts hs) (Arr (take (length hs) cells))
      = rowToRecord (reducer_ts hs) (Arr cells)"
    using rowToRecord_clip [of "length hs" "reducer_ts hs" "Arr cells"] ts by simp
  moreover have "rowToRecord (reducer_js hs) (Arr (take (length hs) cells))
      = rowToRecord (reducer_js hs) (Arr cells)"
    using rowToRecord_clip [of "length hs" "reducer_js hs" "Arr cells"] js by simp
  moreover have "fst ` set (props (reduce (reducer_js hs) (Object [] ObjectPrototype) 0 cells))
      \<subseteq> set (headerTexts hs)"
    using reduce_js_keys_subset [of hs "Object [] ObjectPrototype" 0 cells] by simp
  moreover have "fst ` set (props (reduce (reducer_ts hs) (Object [] ObjectPrototype) 0 cells))
      \<subseteq> set (headerTexts hs)"
    using reduce_ts_keys_subset [of hs "Object [] ObjectPrototype" 0 cells] by simp
  ultimately show ?thesis
    using ts js by (simp add: headerAt_past_end)
qed

theorem extra_cells_dropped_witness:
  "convertToJson_js (Obj [(''S'', Arr [Arr [Str ''A''], Arr [Str ''x'', Str ''y'', Str ''z'']])])
     = convertToJson_js (Obj [(''S'', Arr [Arr [Str ''A''], Arr [Str ''x'']])])
   \<and> length [Str ''A''] \<le> 2
   \<and> headerAt [Str ''A''] 2 = Undefined
   \<and> reducer_js [Str ''A''] (Object [(''A'', Str ''x'')] ObjectPrototype) (Str ''z'') 2
       = Object [(''A'', Str ''x'')] ObjectPrototype
   \<and> reducer_ts [Str ''A''] (Object [] ObjectPrototype) (Str ''z'') 2 = Object [] ObjectPrototype"
  using extra_cells_dropped
    [of "[(''S'', Arr [Arr [Str ''A''], Arr [Str ''x'', Str ''y'', Str ''z'']])]"
        "[Str ''A'']" "[]" 2 "Object [(''A'', Str ''x'')] ObjectPrototype" "Str ''z''"]
    extra_cells_dropped [of "[]" "[Str ''A'']" "[]" 2 "Object [] ObjectPrototype" "Str ''z''"]
  by simp

text \<open>
  C2, as amended, for the type guard \<open>typeof headers[index] === "string"\<close> of the
  JavaScript copy. After validation the guard holds at every index below the length of
  the header row, and fails at every index from there on. The conversion without the
  guard agrees with the conversion with it on every input in which no data row is
  longer than its header row.
\<close>

theorem text_guard_on_fitting_rows:
  "(validateHeaders (Arr hs) \<and> index < length hs \<longrightarrow> typeof (headerAt hs index) = ''string'')
   \<and> (length hs \<le> index \<longrightarrow> typeof (headerAt hs index) = ''undefined'')
   \<and> (list_all (\<lambda>(name, grid). sheetFits grid) es \<longrightarrow>
        convertToJson_nocheck ns (Obj es) = convertToJson_js (Obj es))"
proof -
  have "typeof (headerAt hs index) = ''string''" if "validateHeaders (Arr hs)" and "index < length hs"
    using validateHeaders_text [OF that] that(2) by (auto simp add: headerAt_def)
  moreover have "convertToJson_nocheck ns (Obj es) = convertToJson_js (Obj es)"
    if "list_all (\<lambda>(name, grid). sheetFits grid) es"
    using sheetsLoop_nocheck_fits [OF that, of ns "Object [] ObjectPrototype"]
    by (simp add: convertToJson_nocheck_def convertToJson_js_def convertToJsonWith_Obj)
  ultimately show ?thesis
    by (simp add: headerAt_past_end)
qed

theorem text_guard_on_fitting_rows_witness:
  "validateHeaders (Arr [Str ''A'', Str ''B'']) \<and> 1 < length [Str ''A'', Str ''B'']
   \<and> typeof (headerAt [Str ''A'', Str ''B''] 1) = ''string''
   \<and> length [Str ''A'', Str ''B''] \<le> 2
   \<and> typeof (headerAt [Str ''A'', Str ''B''] 2) = ''undefined''
   \<and> list_all (\<lambda>(name, grid). sheetFits grid)
        [(''S'', Arr [Arr [Str ''A'', Str ''B''], Arr [Str ''x'', Str ''y''], Arr [Str ''z'']])]
   \<and> convertToJson_nocheck (\<lambda>n. []) (Obj [(''S'', Arr [Arr [Str ''A'', Str ''B''], Arr [Str ''x'', Str ''y''], Arr [Str ''z'']])])
     = convertToJson_js (Obj [(''S'', Arr [Arr [Str ''A'', Str ''B''], Arr [Str ''x'', Str ''y''], Arr [Str ''z'']])])"
proof -
  have "validateHeaders (Arr [Str ''A'', Str ''B''])"
    by (simp add: header_eval)
  then show ?thesis
    using text_guard_on_fitting_rows
      [of "[Str ''A'', Str ''B'']" 1
          "[(''S'', Arr [Arr [Str ''A'', Str ''B''], Arr [Str ''x'', Str ''y''], Arr [Str ''z'']])]"
          "\<lambda>n. []"]
      text_guard_on_fitting_rows [of "[Str ''A'', Str ''B'']" 2 "[]" "\<lambda>n. []"]
    by simp
qed

text \<open>
  C2 as stated fails: the header row \<open>["A"]\<close> is valid, the guard is false at index 1,
  and for the data row \<open>["x", "y"]\<close> the conversion without the guard stores "y" under
  the key "undefined" while the conversion with it drops that cell.
\<close>

theorem text_guard_counterexample:
  "validateHeaders (Arr [Str ''A''])
   \<and> typeof (headerAt [Str ''A''] 1) \<noteq> ''string''
   \<and> convertToJson_js (Obj [(''S'', Arr [Arr [Str ''A''], Arr [Str ''x'', Str ''y'']])])
       = Inr (Object [(''S'', [Object [(''A'', Str ''x'')] ObjectPrototype])] ObjectPrototype)
   \<and> convertToJson_nocheck (\<lambda>n. []) (Obj [(''S'', Arr [Arr [Str ''A''], Arr [Str ''x'', Str ''y'']])])
       = Inr (Object [(''S'', [Object [(''A'', Str ''x''), (''undefined'', Str ''y'')] ObjectPrototype])]
            ObjectPrototype)
   \<and> convertToJson_nocheck (\<lambda>n. []) (Obj [(''S'', Arr [Arr [Str ''A''], Arr [Str ''x'', Str ''y'']])])
       \<noteq> convertToJson_js (Obj [(''S'', Arr [Arr [Str ''A''], Arr [Str ''x'', Str ''y'']])])"
proof -
  have cells: "parseValue (Str ''x'') = Str ''x''" "parseValue (Str ''y'') = Str ''y''"
    by (simp_all add: parseValue.simps text_eval case_eval)
  have "validateHeaders (Arr [Str ''A''])"
    by (simp add: header_eval)
  moreover have "typeof (headerAt [Str ''A''] 1) \<noteq> ''string''"
    by (simp add: headerAt_def)
  moreover have "convertToJson_js (Obj [(''S'', Arr [Arr [Str ''A''], Arr [Str ''x'', Str ''y'']])])
       = Inr (Object [(''S'', [Object [(''A'', Str ''x'')] ObjectPrototype])] ObjectPrototype)"
    by (simp add: convertToJson_js_def convert_eval reducer_js_def header_eval cells)
  moreover have "convertToJson_nocheck (\<lambda>n. []) (Obj [(''S'', Arr [Arr [Str ''A''], Arr [Str ''x'', Str ''y'']])])
       = Inr (Object [(''S'', [Object [(''A'', Str ''x''), (''undefined'', Str ''y'')] ObjectPrototype])]
            ObjectPrototype)"
    by (simp add: convertToJson_nocheck_def convert_eval reducer_nocheck_def header_eval cells)
  ultimately show ?thesis
    by simp
qed

section \<open>Values in a store that has grown\<close>

lemma kept_nth: "take (length h0) h = h0 \<Longrightarrow> a < length h0 \<Longrightarrow> h ! a = h0 ! a"
  by (metis nth_take)

lemma kept_length: "take (length h0) h = h0 \<Longrightarrow> length h0 \<le> length h"
  by (metis length_take min.cobounded1)

lemma kept_append: "take (length h0) h = h0 \<Longrightarrow> take (length h0) (h @ t) = h0"
  using kept_length [of h0 h] by simp

lemma kept_update: "take (length h0) h = h0 \<Longrightarrow> length h0 \<le> x \<Longrightarrow> take (length h0) (h[x := c]) = h0"
  by simp

lemma reprs_iff: "reprs h vs xs \<longleftrightarrow> list_all2 (repr h) vs xs"
  by (induction vs xs rule: list_induct2') simp_all

lemma reprProps_iff:
  "reprProps h qs ps \<longleftrightarrow> list_all2 (\<lambda>(k, x) (k', y). k = k' \<and> repr h x y) qs ps"
  by (induction qs ps rule: list_induct2') auto

lemma repr_kept_all:
  "take (length h0) h = h0 \<longrightarrow> repr h0 v j \<longrightarrow> repr h v j"
  "take (length h0) h = h0 \<longrightarrow> reprs h0 vs js \<longrightarrow> reprs h vs js"
  "take (length h0) h = h0 \<longrightarrow> reprProps h0 qs ps \<longrightarrow> reprProps h qs ps"
proof (induction h0 v j and h0 vs js and h0 qs ps rule: repr_reprs_reprProps.induct)
  case (6 h0 v xs)
  show ?case
  proof (intro impI)
    assume keep: "take (length h0) h = h0" and r: "repr h0 v (Arr xs)"
    from r obtain a vs where v: "v = SRef a" and a: "a < length h0"
      and c: "h0 ! a = ArrayCell vs" and rs: "reprs h0 vs xs"
      by (auto split: sval.splits cell.splits)
    have "reprs h vs xs"
      using 6 [OF v c] keep rs by simp
    moreover have "h ! a = ArrayCell vs" and "a < length h"
      using kept_nth [OF keep a] c a kept_length [OF keep] by simp_all
    ultimately show "repr h v (Arr xs)"
      by (simp add: v)
  qed
next
  case (7 h0 v ps)
  show ?case
  proof (intro impI)
    assume keep: "take (length h0) h = h0" and r: "repr h0 v (Obj ps)"
    from r obtain a qs pr where v: "v = SRef a" and a: "a < length h0"
      and c: "h0 ! a = ObjectCell qs pr" and p: "pr = ProtoObject" and d: "distinct (map fst ps)"
      and rs: "reprProps h0 qs ps"
      by (auto split: sval.splits cell.splits)
    have "reprProps h qs ps"
      using 7 [OF v c] keep rs by simp
    moreover have "h ! a = ObjectCell qs pr" and "a < length h"
      using kept_nth [OF keep a] c a kept_length [OF keep] by simp_all
    ultimately show "repr h v (Obj ps)"
      by (simp add: v p d)
  qed
qed auto

lemma repr_kept: "take (length h0) h = h0 \<Longrightarrow> repr h0 v j \<Longrightarrow> repr h v j"
  using repr_kept_all(1) by blast

text \<open>What \<open>typeof\<close>, \<open>!\<close> and \<open>Array.isArray\<close> see of a value.\<close>

lemma typeof_store_repr: "repr h v j \<Longrightarrow> typeof_store v = typeof j"
  by (cases j) (auto split: sval.splits)

lemma falsy_store_repr: "repr h v j \<Longrightarrow> falsy_store v = falsy j"
  by (cases j) (auto split: sval.splits)

lemma repr_text: "repr h (SStr s) j \<longleftrightarrow> j = Str s"
  by (cases j) auto

lemma repr_Arr_elements:
  assumes "take (length h0) h = h0" and "repr h0 v (Arr xs)"
  shows "isArray_store h v" and "list_all2 (repr h0) (elementsAt h v) xs"
proof -
  from assms(2) obtain a vs where v: "v = SRef a" and a: "a < length h0"
    and c: "h0 ! a = ArrayCell vs" and rs: "reprs h0 vs xs"
    by (auto split: sval.splits cell.splits)
  have "h ! a = ArrayCell vs"
    using kept_nth [OF assms(1) a] c by simp
  then show "isArray_store h v" and "list_all2 (repr h0) (elementsAt h v) xs"
    using rs by (simp_all add: v isArray_store_def elementsAt_def reprs_iff)
qed

lemma repr_not_Arr:
  assumes "take (length h0) h = h0" and "repr h0 v j" and "\<not> isArray j"
  shows "\<not> isArray_store h v"
proof (cases j)
  case (Obj ps)
  with assms(2) obtain a qs pr where v: "v = SRef a" and a: "a < length h0"
    and c: "h0 ! a = ObjectCell qs pr"
    by (auto split: sval.splits cell.splits)
  have "h ! a = ObjectCell qs pr"
    using kept_nth [OF assms(1) a] c by simp
  then show ?thesis
    by (simp add: v isArray_store_def)
qed (use assms in \<open>auto simp add: isArray_store_def\<close>)

lemma parseValue_store_repr: "repr h v j \<Longrightarrow> repr h (parseValue_store v) (parseValue j)"
  by (cases j) (auto simp add: parseValue.simps split: sval.splits)

lemma headerAt_store_repr:
  "list_all2 (repr h0) (elementsAt h headers) hs \<Longrightarrow>
     repr h0 (headerAt_store h headers i) (headerAt hs i)"
  by (auto simp add: headerAt_store_def headerAt_def list_all2_conv_all_nth)

lemma elementsAt_update:
  "v \<noteq> SRef x \<Longrightarrow> elementsAt (h[x := c]) v = elementsAt h v"
  by (cases v) (simp_all add: elementsAt_def)

lemma elementsAt_append:
  "v = SRef a \<Longrightarrow> a < length h \<Longrightarrow> elementsAt (h @ t) v = elementsAt h v"
  by (simp add: elementsAt_def nth_append)

section \<open>Header validation in the store\<close>

lemma headersLoop_store_refines:
  assumes "headers \<noteq> SRef seen"
  shows "list_all2 (repr h0) (elementsAt h headers) xs \<Longrightarrow> h ! seen = SetCell ss \<Longrightarrow>
     seen < length h \<Longrightarrow>
     (\<And>s. (SStr s \<in> set ss) = (Str s \<in> S)) \<Longrightarrow> n = length xs - i \<Longrightarrow>
     \<exists>ss'. headersLoop_store h seen headers i
        = (headersLoop S (drop i xs), h[seen := SetCell ss'])"
proof (induction n arbitrary: i h ss S)
  case 0
  then have "\<not> i < length (elementsAt h headers)" and "drop i xs = []"
    by (auto simp add: list_all2_lengthD)
  moreover have "h[seen := SetCell ss] = h"
    using 0(2) list_update_id [of h seen] by simp
  ultimately have "headersLoop_store h seen headers i
      = (headersLoop S (drop i xs), h[seen := SetCell ss])"
    by (simp add: headersLoop_store.simps [of h seen headers i])
  then show ?case by blast
next
  case (Suc n)
  let ?vs = "elementsAt h headers"
  have i: "i < length xs" and len: "length ?vs = length xs"
    using Suc.prems by (auto simp add: list_all2_lengthD)
  have rel: "repr h0 (?vs ! i) (xs ! i)"
    using Suc.prems(1) i by (simp add: list_all2_conv_all_nth)
  have drop: "drop i xs = xs ! i # drop (Suc i) xs"
    using i by (simp add: Cons_nth_drop_Suc)
  have same: "h[seen := SetCell ss] = h"
    using Suc.prems(2) list_update_id [of h seen] by simp
  show ?case
  proof (cases "\<exists>s. xs ! i = Str s")
    case True
    then obtain s where Str: "xs ! i = Str s"
      by blast
    then have v: "?vs ! i = SStr s"
      using rel by simp
    show ?thesis
    proof (cases "trim s = [] \<or> Str s \<in> S")
      case True
      then have "headersLoop_store h seen headers i = (False, h)"
        using v i len Suc.prems(2,4)
        by (auto simp add: headersLoop_store.simps [of h seen headers i] setHas_def)
      moreover have "headersLoop S (drop i xs) = False"
        using True by (auto simp add: drop Str)
      ultimately have "headersLoop_store h seen headers i
          = (headersLoop S (drop i xs), h[seen := SetCell ss])"
        using same by simp
      then show ?thesis by blast
    next
      case False
      let ?h = "h[seen := SetCell (ss @ [SStr s])]"
      have add: "setAdd h seen (SStr s) = ?h"
        using False Suc.prems(2,4) by (simp add: setAdd_def)
      have run: "headersLoop_store h seen headers i = headersLoop_store ?h seen headers (Suc i)"
        using v i len False Suc.prems(2,4) add
        by (simp add: headersLoop_store.simps [of h seen headers i] setHas_def)
      have f1: "list_all2 (repr h0) (elementsAt ?h headers) xs"
        using Suc.prems(1) assms(1) by (simp add: elementsAt_update)
      have f2: "?h ! seen = SetCell (ss @ [SStr s])"
        using Suc.prems(3) by simp
      have f3: "seen < length ?h"
        using Suc.prems(3) by simp
      have f4: "\<And>t. (SStr t \<in> set (ss @ [SStr s])) = (Str t \<in> insert (Str s) S)"
        using Suc.prems(4) by auto
      have f5: "n = length xs - Suc i"
        using Suc.prems(5) by simp
      obtain ss' where
        "headersLoop_store ?h seen headers (Suc i)
           = (headersLoop (insert (Str s) S) (drop (Suc i) xs), ?h[seen := SetCell ss'])"
        using Suc.IH [OF f1 f2 f3 f4 f5] by blast
      then have "headersLoop_store h seen headers i
           = (headersLoop S (drop i xs), h[seen := SetCell ss'])"
        using run False by (simp add: drop Str)
      then show ?thesis by blast
    qed
  next
    case False
    then have nt: "\<And>s. ?vs ! i \<noteq> SStr s"
      using rel by (auto simp add: repr_text)
    have "headersLoop_store h seen headers i = (False, h)"
    proof (cases "?vs ! i")
      case (SStr s)
      then show ?thesis
        using nt [of s] by simp
    qed (use i len in \<open>simp_all add: headersLoop_store.simps [of h seen headers i]\<close>)
    moreover have "headersLoop S (drop i xs) = False"
      using False by (cases "xs ! i") (simp_all add: drop)
    ultimately have "headersLoop_store h seen headers i
        = (headersLoop S (drop i xs), h[seen := SetCell ss])"
      using same by simp
    then show ?thesis by blast
  qed
qed

lemma validateHeaders_store_refines:
  assumes "take (length h0) h = h0" and "repr h0 v j"
  shows "\<exists>t. validateHeaders_store h v = (validateHeaders j, h @ t)"
proof (cases "isArray j")
  case True
  then obtain xs where j: "j = Arr xs"
    by (cases j) simp_all
  from assms(2) obtain a where v: "v = SRef a" and a: "a < length h0"
    by (auto simp add: j split: sval.splits)
  have al: "a < length h"
    using a kept_length [OF assms(1)] by simp
  let ?h = "h @ [SetCell []]"
  have arr: "isArray_store h v" and els: "list_all2 (repr h0) (elementsAt h v) xs"
    using repr_Arr_elements [OF assms(1)] assms(2) by (simp_all add: j)
  have f0: "v \<noteq> SRef (length h)"
    using al by (simp add: v)
  have f1: "list_all2 (repr h0) (elementsAt ?h v) xs"
    using els elementsAt_append [OF v al] by simp
  have f2: "?h ! length h = SetCell []" and f3: "length h < length ?h"
    by simp_all
  have f4: "\<And>s. (SStr s \<in> set []) = (Str s \<in> {})"
    by simp
  obtain ss' where "headersLoop_store ?h (length h) v 0
      = (headersLoop {} (drop 0 xs), ?h[length h := SetCell ss'])"
    using headersLoop_store_refines [OF f0 f1 f2 f3 f4, of "length xs - 0" 0] by blast
  then have "validateHeaders_store h v = (validateHeaders j, h @ [SetCell ss'])"
    using arr by (simp add: validateHeaders_store_def alloc_def j)
  then show ?thesis by blast
next
  case False
  then have "\<not> isArray_store h v"
    using repr_not_Arr [OF assms] by simp
  moreover have "validateHeaders j = False"
    using False by (cases j) simp_all
  ultimately have "validateHeaders_store h v = (validateHeaders j, h @ [])"
    by (simp add: validateHeaders_store_def)
  then show ?thesis by blast
qed

section \<open>Records in the store\<close>

lemma props_update:
  "list_all2 (\<lambda>(k, x) (k', y). k = k' \<and> R x y) qs ps \<Longrightarrow> R v w \<Longrightarrow>
     list_all2 (\<lambda>(k, x) (k', y). k = k' \<and> R x y) (AList.update key v qs) (AList.update key w ps)"
  by (induction qs ps rule: list_all2_induct) auto

lemma props_map_of_None:
  "list_all2 (\<lambda>(k, x) (k', y). k = k' \<and> R x y) qs ps \<Longrightarrow>
     (map_of qs key = None) = (map_of ps key = None)"
  by (induction qs ps rule: list_all2_induct) auto

lemma reducer_store_refines:
  assumes "list_all2 (repr h0) (elementsAt h headers) hs"
    and "obj < length h" and "h ! obj = ObjectCell qs ProtoObject"
    and "list_all2 (\<lambda>(k, x) (k', y). k = k' \<and> repr h0 x y) qs (props rcd)"
    and "proto rcd = ObjectPrototype" and "repr h0 v j"
  shows "\<exists>qs'. reducer_store h headers obj v i = h[obj := ObjectCell qs' ProtoObject]
     \<and> list_all2 (\<lambda>(k, x) (k', y). k = k' \<and> repr h0 x y) qs' (props (reducer_ts hs rcd j i))
     \<and> proto (reducer_ts hs rcd j i) = ObjectPrototype"
proof -
  have rel: "repr h0 (headerAt_store h headers i) (headerAt hs i)"
    using assms(1) by (rule headerAt_store_repr)
  have same: "h[obj := ObjectCell qs ProtoObject] = h"
    using assms(3) list_update_id [of h obj] by simp
  show ?thesis
  proof (cases "headerAt hs i = Str ''string''")
    case True
    then have "headerAt_store h headers i = SStr ''string''"
      using rel by simp
    then have "reducer_store h headers obj v i
        = h[obj := ObjectCell (AList.update ''string'' (parseValue_store v) qs) ProtoObject]"
      using assms(3) by (simp add: reducer_store_def setProperty_store_def)
    moreover have "reducer_ts hs rcd j i
        = Object (AList.update ''string'' (parseValue j) (props rcd)) ObjectPrototype"
      using True assms(5) by (simp add: reducer_ts_def setProperty_def)
    moreover have "list_all2 (\<lambda>(k, x) (k', y). k = k' \<and> repr h0 x y)
        (AList.update ''string'' (parseValue_store v) qs)
        (AList.update ''string'' (parseValue j) (props rcd))"
      using assms(4) parseValue_store_repr [OF assms(6)] by (rule props_update)
    ultimately show ?thesis
      by (intro exI [of _ "AList.update ''string'' (parseValue_store v) qs"]) simp
  next
    case False
    then have "headerAt_store h headers i \<noteq> SStr ''string''"
      using rel by (auto simp add: repr_text)
    then have "reducer_store h headers obj v i = h[obj := ObjectCell qs ProtoObject]"
      using same by (simp add: reducer_store_def split: sval.splits)
    moreover have "reducer_ts hs rcd j i = rcd"
      using False by (simp add: reducer_ts_def)
    ultimately show ?thesis
      using assms(4,5) by (intro exI [of _ qs]) simp
  qed
qed

lemma reduce_store_refines:
  assumes "headers \<noteq> SRef obj" and "row \<noteq> SRef obj"
  shows "list_all2 (repr h0) (elementsAt h headers) hs \<Longrightarrow>
     list_all2 (repr h0) (elementsAt h row) cells \<Longrightarrow>
     obj < length h \<Longrightarrow> h ! obj = ObjectCell qs ProtoObject \<Longrightarrow>
     list_all2 (\<lambda>(k, x) (k', y). k = k' \<and> repr h0 x y) qs (props rcd) \<Longrightarrow>
     proto rcd = ObjectPrototype \<Longrightarrow> k + n = length cells \<Longrightarrow>
     \<exists>qs'. reduce_store h headers row obj k n = h[obj := ObjectCell qs' ProtoObject]
       \<and> list_all2 (\<lambda>(k, x) (k', y). k = k' \<and> repr h0 x y) qs'
            (props (reduce (reducer_ts hs) rcd k (drop k cells)))
       \<and> proto (reduce (reducer_ts hs) rcd k (drop k cells)) = ObjectPrototype"
proof (induction n arbitrary: h qs rcd k)
  case 0
  have "h[obj := ObjectCell qs ProtoObject] = h"
    using 0(4) list_update_id [of h obj] by simp
  then show ?case
    using 0 by (intro exI [of _ qs]) simp
next
  case (Suc n)
  have k: "k < length cells" and len: "length (elementsAt h row) = length cells"
    using Suc.prems by (auto simp add: list_all2_lengthD)
  have cell: "repr h0 (elementsAt h row ! k) (cells ! k)"
    using Suc.prems(2) k by (simp add: list_all2_conv_all_nth)
  obtain qs1 where step: "reducer_store h headers obj (elementsAt h row ! k) k
        = h[obj := ObjectCell qs1 ProtoObject]"
    and rel1: "list_all2 (\<lambda>(k, x) (k', y). k = k' \<and> repr h0 x y) qs1
        (props (reducer_ts hs rcd (cells ! k) k))"
    and proto1: "proto (reducer_ts hs rcd (cells ! k) k) = ObjectPrototype"
    using reducer_store_refines [OF Suc.prems(1,3,4,5,6) cell, of k] by blast
  let ?h = "h[obj := ObjectCell qs1 ProtoObject]"
  have f1: "list_all2 (repr h0) (elementsAt ?h headers) hs"
    and f2: "list_all2 (repr h0) (elementsAt ?h row) cells"
    using Suc.prems(1,2) assms by (simp_all add: elementsAt_update)
  have f3: "obj < length ?h" and f4: "?h ! obj = ObjectCell qs1 ProtoObject"
    using Suc.prems(3) by simp_all
  have f7: "Suc k + n = length cells"
    using Suc.prems(7) by simp
  obtain qs' where run: "reduce_store ?h headers row obj (Suc k) n = ?h[obj := ObjectCell qs' ProtoObject]"
    and rel: "list_all2 (\<lambda>(k, x) (k', y). k = k' \<and> repr h0 x y) qs'
        (props (reduce (reducer_ts hs) (reducer_ts hs rcd (cells ! k) k) (Suc k) (drop (Suc k) cells)))"
    and pr: "proto (reduce (reducer_ts hs) (reducer_ts hs rcd (cells ! k) k) (Suc k) (drop (Suc k) cells))
        = ObjectPrototype"
    using Suc.IH [OF f1 f2 f3 f4 rel1 proto1 f7] by blast
  have drop: "drop k cells = cells ! k # drop (Suc k) cells"
    using k by (simp add: Cons_nth_drop_Suc)
  have "reduce_store h headers row obj k (Suc n) = h[obj := ObjectCell qs' ProtoObject]"
    using run step k len by simp
  then show ?case
    using rel pr by (intro exI [of _ qs']) (simp add: drop)
qed

lemma rowToRecord_store_refines:
  assumes "take (length h0) h = h0" and "repr h0 headers (Arr hs)" and "repr h0 row j"
  shows "case rowToRecord (reducer_ts hs) j of
           Inl e \<Rightarrow> rowToRecord_store h headers row = (Inl e, h)
         | Inr rcd \<Rightarrow>
             (\<exists>qs. rowToRecord_store h headers row
                  = (Inr (SRef (length h)), h @ [ObjectCell qs ProtoObject])
                \<and> list_all2 (\<lambda>(k, x) (k', y). k = k' \<and> repr h0 x y) qs (props rcd)
                \<and> proto rcd = ObjectPrototype)"
proof (cases "isArray j")
  case True
  then obtain cells where j: "j = Arr cells"
    by (cases j) simp_all
  let ?h = "h @ [ObjectCell [] ProtoObject]"
  have keep: "take (length h0) ?h = h0"
    using assms(1) by (rule kept_append)
  from assms(2) obtain a where hv: "headers = SRef a" and a: "a < length h0"
    by (auto split: sval.splits)
  from assms(3) obtain b where rv: "row = SRef b" and b: "b < length h0"
    by (auto simp add: j split: sval.splits)
  have le: "length h0 \<le> length h"
    using assms(1) by (rule kept_length)
  have f0: "headers \<noteq> SRef (length h)" and f0': "row \<noteq> SRef (length h)"
    using a b le by (simp_all add: hv rv)
  have f1: "list_all2 (repr h0) (elementsAt ?h headers) hs"
    using repr_Arr_elements(2) [OF keep assms(2)] .
  have f2: "list_all2 (repr h0) (elementsAt ?h row) cells"
    using repr_Arr_elements(2) [OF keep] assms(3) by (simp add: j)
  have f3: "length h < length ?h" and f4: "?h ! length h = ObjectCell [] ProtoObject"
    by simp_all
  have f5: "list_all2 (\<lambda>(k, x) (k', y). k = k' \<and> repr h0 x y) []
      (props (Object [] ObjectPrototype :: JsonRecord))"
    and f6: "proto (Object [] ObjectPrototype :: JsonRecord) = ObjectPrototype"
    by simp_all
  have f7: "0 + length cells = length cells"
    by simp
  obtain qs' where run: "reduce_store ?h headers row (length h) 0 (length cells)
        = ?h[length h := ObjectCell qs' ProtoObject]"
    and rel: "list_all2 (\<lambda>(k, x) (k', y). k = k' \<and> repr h0 x y) qs'
        (props (reduce (reducer_ts hs) (Object [] ObjectPrototype) 0 (drop 0 cells)))"
    and pr: "proto (reduce (reducer_ts hs) (Object [] ObjectPrototype) 0 (drop 0 cells)) = ObjectPrototype"
    using reduce_store_refines [OF f0 f0' f1 f2 f3 f4 f5 f6 f7] by blast
  have "isArray_store h row"
    using repr_Arr_elements(1) [OF assms(1)] assms(3) by (simp add: j)
  moreover have "length (elementsAt ?h row) = length cells"
    using f2 by (rule list_all2_lengthD)
  ultimately have "rowToRecord_store h headers row
      = (Inr (SRef (length h)), h @ [ObjectCell qs' ProtoObject])"
    using run by (simp add: rowToRecord_store_def alloc_def)
  then show ?thesis
    using rel pr by (simp add: j) 
next
  case False
  then have "\<not> isArray_store h row"
    using repr_not_Arr [OF assms(1,3)] by simp
  moreover have "rowToRecord (reducer_ts hs) j = Inl TypeError"
    using False by (cases j) simp_all
  ultimately show ?thesis
    by (simp add: rowToRecord_store_def)
qed

section \<open>Built objects in a store that has changed\<close>

lemma reprProto_mono:
  "reprProto R p q \<Longrightarrow> (\<And>x y. R x y \<Longrightarrow> R' x y) \<Longrightarrow> reprProto R' p q"
  by (cases "(R, p, q)" rule: reprProto.cases) auto

lemma props_mono:
  "list_all2 (\<lambda>(k, x) (k', y). k = k' \<and> R x y) qs ps \<Longrightarrow> (\<And>x y. R x y \<Longrightarrow> R' x y) \<Longrightarrow>
     list_all2 (\<lambda>(k, x) (k', y). k = k' \<and> R' x y) qs ps"
  by (erule list_all2_mono) auto

text \<open>
  An object stays what it is when the store grows and cells below \<open>lo\<close> change, and
  when the relation on its contents gets weaker.
\<close>

lemma reprObject_agree:
  assumes "reprObject R lo h v obj" and "length h \<le> length h'"
    and "\<And>a. lo' \<le> a \<Longrightarrow> a < length h \<Longrightarrow> h' ! a = h ! a" and "lo' \<le> lo"
    and "\<And>x y. R x y \<Longrightarrow> R' x y"
  shows "reprObject R' lo' h' v obj"
proof -
  from assms(1) obtain a qs pr where v: "v = SRef a" and a: "lo \<le> a" "a < length h"
    and c: "h ! a = ObjectCell qs pr"
    and ps: "list_all2 (\<lambda>(k, x) (k', y). k = k' \<and> R x y) qs (props obj)"
    and p: "reprProto R pr (proto obj)"
    by (auto simp add: reprObject_def split: sval.splits cell.splits)
  have "h' ! a = ObjectCell qs pr"
    using assms(3) [of a] a assms(4) c by simp
  moreover have "list_all2 (\<lambda>(k, x) (k', y). k = k' \<and> R' x y) qs (props obj)"
    using ps assms(5) by (rule props_mono)
  moreover have "reprProto R' pr (proto obj)"
    using p assms(5) by (rule reprProto_mono)
  ultimately show ?thesis
    using a assms(2,4) by (simp add: reprObject_def v)
qed

lemma reprArray_agree:
  assumes "reprArray R lo h v xs" and "length h \<le> length h'"
    and "\<And>a. lo' \<le> a \<Longrightarrow> a < length h \<Longrightarrow> h' ! a = h ! a" and "lo' \<le> lo"
    and "\<And>x y. R x y \<Longrightarrow> R' x y"
  shows "reprArray R' lo' h' v xs"
proof -
  from assms(1) obtain a vs where v: "v = SRef a" and a: "lo \<le> a" "a < length h"
    and c: "h ! a = ArrayCell vs" and es: "list_all2 R vs xs"
    by (auto simp add: reprArray_def split: sval.splits cell.splits)
  have "h' ! a = ArrayCell vs"
    using assms(3) [of a] a assms(4) c by simp
  moreover have "list_all2 R' vs xs"
    using es assms(5) by (rule list_all2_mono)
  ultimately show ?thesis
    using a assms(2,4) by (simp add: reprArray_def v)
qed

lemma records_agree:
  assumes "reprArray (reprObject R lo h) lo h v rs" and "length h \<le> length h'"
    and "\<And>a. lo' \<le> a \<Longrightarrow> a < length h \<Longrightarrow> h' ! a = h ! a" and "lo' \<le> lo"
    and "\<And>x y. R x y \<Longrightarrow> R' x y"
  shows "reprArray (reprObject R' lo' h') lo' h' v rs"
  using assms(1,2,3,4)
proof (rule reprArray_agree)
  fix x y
  assume "reprObject R lo h x y"
  then show "reprObject R' lo' h' x y"
    using assms(2,3,4,5) by (rule reprObject_agree)
qed

section \<open>The rows of a sheet in the store\<close>

lemma mapLoop_store_refines:
  assumes "repr h0 headers (Arr hs)" and "length h0 \<le> r" and "length h0 \<le> out" and "out \<noteq> r"
    and "list_all2 (repr h0) rvs jrows"
  shows "take (length h0) h = h0 \<Longrightarrow> r < length h \<Longrightarrow> h ! r = ArrayCell rvs \<Longrightarrow>
     out < length h \<Longrightarrow> h ! out = ArrayCell ovs \<Longrightarrow> length ovs = length rvs \<Longrightarrow>
     k + n = length rvs \<Longrightarrow>
     (case mapRows (reducer_ts hs) (drop k jrows) of
        Inl e \<Rightarrow> \<exists>c t. mapLoop_store h headers (SRef r) out k n = (Some e, h[out := c] @ t)
      | Inr rs \<Rightarrow>
          (\<exists>new t. mapLoop_store h headers (SRef r) out k n
               = (None, h[out := ArrayCell (take k ovs @ new)] @ t)
             \<and> list_all2 (reprObject (repr h0) (length h)
                  (h[out := ArrayCell (take k ovs @ new)] @ t)) new rs))"
proof (induction n arbitrary: h ovs k)
  case 0
  have "drop k jrows = []"
    using 0(7) assms(5) by (simp add: list_all2_lengthD)
  moreover have "h[out := ArrayCell (take k ovs @ [])] @ [] = h"
    using 0(5,6,7) list_update_id [of h out] by simp
  ultimately show ?case
    by (simp del: append_Nil2) (metis append_Nil2 list.rel_inject(1) list_all2_Nil)
next
  case (Suc n)
  have len: "length jrows = length rvs"
    using assms(5) by (simp add: list_all2_lengthD)
  have k: "k < length rvs"
    using Suc.prems(7) by simp
  have rows: "elementsAt h (SRef r) = rvs"
    using Suc.prems(3) by (simp add: elementsAt_def)
  have row: "repr h0 (rvs ! k) (jrows ! k)"
    using assms(5) k by (simp add: list_all2_conv_all_nth)
  have drop: "drop k jrows = jrows ! k # drop (Suc k) jrows"
    using k len by (simp add: Cons_nth_drop_Suc)
  have same: "h[out := ArrayCell ovs] = h"
    using Suc.prems(5) list_update_id [of h out] by simp
  note one = rowToRecord_store_refines [OF Suc.prems(1) assms(1) row]
  show ?case
  proof (cases "rowToRecord (reducer_ts hs) (jrows ! k)")
    case (Inl e)
    then have "rowToRecord_store h headers (rvs ! k) = (Inl e, h)"
      using one by simp
    then have "mapLoop_store h headers (SRef r) out k (Suc n) = (Some e, h[out := ArrayCell ovs] @ [])"
      using k rows same by simp
    then have "\<exists>c t. mapLoop_store h headers (SRef r) out k (Suc n) = (Some e, h[out := c] @ t)"
      by blast
    then show ?thesis
      using Inl by (simp add: drop)
  next
    case (Inr rcd)
    then obtain qs where run1: "rowToRecord_store h headers (rvs ! k)
          = (Inr (SRef (length h)), h @ [ObjectCell qs ProtoObject])"
      and rel1: "list_all2 (\<lambda>(k, x) (k', y). k = k' \<and> repr h0 x y) qs (props rcd)"
      and pr1: "proto rcd = ObjectPrototype"
      using one by auto
    let ?c = "ObjectCell qs ProtoObject"
    let ?ovs = "ovs[k := SRef (length h)]"
    let ?h = "(h @ [?c])[out := ArrayCell ?ovs]"
    have outs: "elementsAt (h @ [?c]) (SRef out) = ovs"
      using Suc.prems(4,5) by (simp add: elementsAt_def nth_append)
    have step: "mapLoop_store h headers (SRef r) out k (Suc n)
        = mapLoop_store ?h headers (SRef r) out (Suc k) n"
      using k rows run1 outs by simp
    have shape: "?h = h[out := ArrayCell ?ovs] @ [?c]"
      using Suc.prems(4) by (simp add: list_update_append1)
    have f1: "take (length h0) ?h = h0"
      using kept_update [OF kept_append [OF Suc.prems(1)] assms(3)] .
    have f2: "r < length ?h"
      using Suc.prems(2) by simp
    have f3: "?h ! r = ArrayCell rvs"
      using Suc.prems(2,3) assms(4) by (simp add: nth_append)
    have f4: "out < length ?h"
      using Suc.prems(4) by simp
    have f5: "?h ! out = ArrayCell ?ovs"
      using Suc.prems(4) by (simp add: shape nth_append)
    have f6: "length ?ovs = length rvs"
      using Suc.prems(6) by simp
    have f7: "Suc k + n = length rvs"
      using Suc.prems(7) by simp
    have tk: "take (Suc k) ?ovs = take k ovs @ [SRef (length h)]"
      using k Suc.prems(6) by (simp add: take_Suc_conv_app_nth)
    note rest = Suc.IH [OF f1 f2 f3 f4 f5 f6 f7]
    show ?thesis
    proof (cases "mapRows (reducer_ts hs) (drop (Suc k) jrows)")
      case (Inl e)
      then obtain c t where "mapLoop_store ?h headers (SRef r) out (Suc k) n = (Some e, ?h[out := c] @ t)"
        using rest by auto
      moreover have "?h[out := c] @ t = h[out := c] @ ([?c] @ t)"
        using Suc.prems(4) by (simp add: list_update_append1)
      ultimately have "\<exists>c t. mapLoop_store h headers (SRef r) out k (Suc n) = (Some e, h[out := c] @ t)"
        using step by metis
      then show ?thesis
        using Inl Inr by (simp add: drop)
    next
      case rs: (Inr rs)
      then obtain new t where
        run: "mapLoop_store ?h headers (SRef r) out (Suc k) n
           = (None, ?h[out := ArrayCell (take (Suc k) ?ovs @ new)] @ t)"
        and rel: "list_all2 (reprObject (repr h0) (length ?h)
             (?h[out := ArrayCell (take (Suc k) ?ovs @ new)] @ t)) new rs"
        using rest by auto
      let ?new = "SRef (length h) # new"
      let ?H = "h[out := ArrayCell (take k ovs @ ?new)] @ ([?c] @ t)"
      have final: "?h[out := ArrayCell (take (Suc k) ?ovs @ new)] @ t = ?H"
        using Suc.prems(4) by (simp add: tk list_update_append1)
      have "reprObject (repr h0) (length h) ?H (SRef (length h)) rcd"
        using rel1 pr1 by (simp add: reprObject_def nth_append)
      moreover have "list_all2 (reprObject (repr h0) (length h) ?H) new rs"
        using rel unfolding final
      proof (rule list_all2_mono)
        fix x y
        assume "reprObject (repr h0) (length ?h) ?H x y"
        then show "reprObject (repr h0) (length h) ?H x y"
          by (rule reprObject_agree) simp_all
      qed
      ultimately have "list_all2 (reprObject (repr h0) (length h) ?H) ?new (rcd # rs)"
        by simp
      moreover have "mapLoop_store h headers (SRef r) out k (Suc n) = (None, ?H)"
        using step run final by simp
      ultimately have "\<exists>new t. mapLoop_store h headers (SRef r) out k (Suc n)
               = (None, h[out := ArrayCell (take k ovs @ new)] @ t)
             \<and> list_all2 (reprObject (repr h0) (length h)
                  (h[out := ArrayCell (take k ovs @ new)] @ t)) new (rcd # rs)"
        by blast
      then show ?thesis
        using Inr rs by (simp add: drop)
    qed
  qed
qed

lemma mapRows_store_refines:
  assumes "take (length h0) h = h0" and "repr h0 headers (Arr hs)"
    and "length h0 \<le> r" and "r < length h" and "h ! r = ArrayCell rvs"
    and "list_all2 (repr h0) rvs jrows"
  shows "case mapRows (reducer_ts hs) jrows of
           Inl e \<Rightarrow> \<exists>t. mapRows_store h headers (SRef r) = (Inl e, h @ t)
         | Inr rs \<Rightarrow>
             (\<exists>t. mapRows_store h headers (SRef r) = (Inr (SRef (length h)), h @ t)
                \<and> reprArray (reprObject (repr h0) (length h) (h @ t)) (length h) (h @ t)
                     (SRef (length h)) rs)"
proof -
  let ?ovs = "replicate (length rvs) SUndefined"
  let ?h = "h @ [ArrayCell ?ovs]"
  have le: "length h0 \<le> length h"
    using assms(1) by (rule kept_length)
  have f0: "length h \<noteq> r"
    using assms(4) by simp
  have f1: "take (length h0) ?h = h0"
    using assms(1) by (rule kept_append)
  have f2: "r < length ?h" and f3: "?h ! r = ArrayCell rvs"
    using assms(4,5) by (simp_all add: nth_append)
  have f4: "length h < length ?h" and f5: "?h ! length h = ArrayCell ?ovs"
    and f6: "length ?ovs = length rvs" and f7: "0 + length rvs = length rvs"
    by simp_all
  note loop = mapLoop_store_refines [OF assms(2,3) le f0 assms(6) f1 f2 f3 f4 f5 f6 f7]
  have els: "length (elementsAt h (SRef r)) = length rvs"
    using assms(5) by (simp add: elementsAt_def)
  show ?thesis
  proof (cases "mapRows (reducer_ts hs) jrows")
    case (Inl e)
    then obtain c t where "mapLoop_store ?h headers (SRef r) (length h) 0 (length rvs)
        = (Some e, ?h[length h := c] @ t)"
      using loop by auto
    then have "mapRows_store h headers (SRef r) = (Inl e, h @ ([c] @ t))"
      using els by (simp add: mapRows_store_def alloc_def)
    then have "\<exists>t. mapRows_store h headers (SRef r) = (Inl e, h @ t)"
      by blast
    then show ?thesis
      using Inl by simp
  next
    case (Inr rs)
    then obtain new t where
      run: "mapLoop_store ?h headers (SRef r) (length h) 0 (length rvs)
        = (None, ?h[length h := ArrayCell (take 0 ?ovs @ new)] @ t)"
      and rel: "list_all2 (reprObject (repr h0) (length ?h)
           (?h[length h := ArrayCell (take 0 ?ovs @ new)] @ t)) new rs"
      using loop by auto
    let ?H = "h @ ([ArrayCell new] @ t)"
    have final: "?h[length h := ArrayCell (take 0 ?ovs @ new)] @ t = ?H"
      by simp
    have "mapRows_store h headers (SRef r) = (Inr (SRef (length h)), ?H)"
      using run els by (simp add: mapRows_store_def alloc_def)
    moreover have "list_all2 (reprObject (repr h0) (length h) ?H) new rs"
      using rel unfolding final
    proof (rule list_all2_mono)
      fix x y
      assume "reprObject (repr h0) (length ?h) ?H x y"
      then show "reprObject (repr h0) (length h) ?H x y"
        by (rule reprObject_agree) simp_all
    qed
    then have "reprArray (reprObject (repr h0) (length h) ?H) (length h) ?H (SRef (length h)) rs"
      by (simp add: reprArray_def nth_append)
    ultimately have "\<exists>t. mapRows_store h headers (SRef r) = (Inr (SRef (length h)), h @ t)
        \<and> reprArray (reprObject (repr h0) (length h) (h @ t)) (length h) (h @ t)
             (SRef (length h)) rs"
      by blast
    then show ?thesis
      using Inr by simp
  qed
qed

section \<open>One sheet in the store\<close>

lemma convertSheet_store_refines:
  assumes "take (length h0) h = h0" and "repr h0 data j"
  shows "case convertSheet reducer_ts sheet j of
           Inl e \<Rightarrow> \<exists>t. convertSheet_store h sheet data = (Inl e, h @ t)
         | Inr rs \<Rightarrow>
             (\<exists>a t. convertSheet_store h sheet data = (Inr (SRef a), h @ t)
                \<and> reprArray (reprObject (repr h0) (length h) (h @ t)) (length h) (h @ t)
                     (SRef a) rs)"
proof (cases "hasDataRows j")
  case True
  then obtain jh jr jrs where j: "j = Arr (jh # jr # jrs)"
    by (auto simp add: hasDataRows_iff)
  have arr: "isArray_store h data" and els: "list_all2 (repr h0) (elementsAt h data) (jh # jr # jrs)"
    using repr_Arr_elements [OF assms(1)] assms(2) by (simp_all add: j)
  from els obtain hv rvs where ev: "elementsAt h data = hv # rvs"
    and hrel: "repr h0 hv jh" and rrel: "list_all2 (repr h0) rvs (jr # jrs)"
    by (auto simp add: list_all2_Cons2)
  have two: "2 \<le> length (elementsAt h data)"
    using els by (simp add: list_all2_lengthD)
  let ?h1 = "h @ [ArrayCell rvs]"
  have keep1: "take (length h0) ?h1 = h0"
    using assms(1) by (rule kept_append)
  obtain t1 where val: "validateHeaders_store ?h1 hv = (validateHeaders jh, ?h1 @ t1)"
    using validateHeaders_store_refines [OF keep1 hrel] by blast
  show ?thesis
  proof (cases "validateHeaders jh")
    case False
    then have "convertSheet_store h sheet data = (Inl (InvalidHeaders sheet), h @ ([ArrayCell rvs] @ t1))"
      using arr two ev val by (simp add: convertSheet_store_def alloc_def)
    then have "\<exists>t. convertSheet_store h sheet data = (Inl (InvalidHeaders sheet), h @ t)"
      by blast
    then show ?thesis
      using False by (simp add: j)
  next
    case True
    then obtain hs where jh: "jh = Arr hs"
      by (cases jh) simp_all
    let ?h2 = "?h1 @ t1"
    have keep2: "take (length h0) ?h2 = h0"
      using keep1 by (rule kept_append)
    have f3: "length h0 \<le> length h"
      using assms(1) by (rule kept_length)
    have f4: "length h < length ?h2" and f5: "?h2 ! length h = ArrayCell rvs"
      by (simp_all add: nth_append)
    note rows = mapRows_store_refines [OF keep2 hrel [unfolded jh] f3 f4 f5 rrel]
    have run: "convertSheet_store h sheet data = mapRows_store ?h2 hv (SRef (length h))"
      using arr two ev val True by (simp add: convertSheet_store_def alloc_def)
    have pure: "convertSheet reducer_ts sheet j = mapRows (reducer_ts hs) (jr # jrs)"
      using True by (simp add: j jh)
    show ?thesis
    proof (cases "mapRows (reducer_ts hs) (jr # jrs)")
      case (Inl e)
      then obtain t where "mapRows_store ?h2 hv (SRef (length h)) = (Inl e, ?h2 @ t)"
        using rows by auto
      then have "convertSheet_store h sheet data = (Inl e, h @ ([ArrayCell rvs] @ t1 @ t))"
        using run by simp
      then have "\<exists>t. convertSheet_store h sheet data = (Inl e, h @ t)"
        by blast
      then show ?thesis
        using Inl pure by simp
    next
      case (Inr rs)
      then obtain t where
        r: "mapRows_store ?h2 hv (SRef (length h)) = (Inr (SRef (length ?h2)), ?h2 @ t)"
        and rel: "reprArray (reprObject (repr h0) (length ?h2) (?h2 @ t)) (length ?h2) (?h2 @ t)
            (SRef (length ?h2)) rs"
        using rows by auto
      let ?H = "h @ ([ArrayCell rvs] @ t1 @ t)"
      have final: "?h2 @ t = ?H"
        by simp
      have "reprArray (reprObject (repr h0) (length h) ?H) (length h) ?H (SRef (length ?h2)) rs"
        using rel unfolding final by (rule records_agree) simp_all
      moreover have "convertSheet_store h sheet data = (Inr (SRef (length ?h2)), ?H)"
        using run r by simp
      ultimately have "\<exists>a t. convertSheet_store h sheet data = (Inr (SRef a), h @ t)
          \<and> reprArray (reprObject (repr h0) (length h) (h @ t)) (length h) (h @ t) (SRef a) rs"
        by blast
      then show ?thesis
        using Inr pure by simp
    qed
  qed
next
  case False
  have "\<not> (isArray_store h data \<and> 2 \<le> length (elementsAt h data))"
  proof (cases "isArray j")
    case True
    then obtain xs where j: "j = Arr xs"
      by (cases j) simp_all
    have "list_all2 (repr h0) (elementsAt h data) xs"
      using repr_Arr_elements(2) [OF assms(1)] assms(2) by (simp add: j)
    then have "length (elementsAt h data) = length xs"
      by (rule list_all2_lengthD)
    then show ?thesis
      using False by (simp add: hasDataRows_def j)
  next
    case False
    then show ?thesis
      using repr_not_Arr [OF assms] by simp
  qed
  then have "convertSheet_store h sheet data = (Inr (SRef (length h)), h @ [ArrayCell []])"
    by (auto simp add: convertSheet_store_def alloc_def)
  moreover have "reprArray (reprObject (repr h0) (length h) (h @ [ArrayCell []])) (length h)
      (h @ [ArrayCell []]) (SRef (length h)) []"
    by (simp add: reprArray_def)
  ultimately have "\<exists>a t. convertSheet_store h sheet data = (Inr (SRef a), h @ t)
      \<and> reprArray (reprObject (repr h0) (length h) (h @ t)) (length h) (h @ t) (SRef a) []"
    by blast
  then show ?thesis
    using False by (simp add: convertSheet_short)
qed

section \<open>The result object in the store\<close>

lemma reprRecords_agree:
  assumes "reprRecords R lo h v rs" and "length h \<le> length h'"
    and "\<And>a. lo' \<le> a \<Longrightarrow> a < length h \<Longrightarrow> h' ! a = h ! a" and "lo' \<le> lo"
    and "\<And>x y. R x y \<Longrightarrow> R' x y"
  shows "reprRecords R' lo' h' v rs"
  using assms unfolding reprRecords_def by (rule records_agree)

lemma setSheet_store_refines:
  assumes "x < length h" and "h ! x = ObjectCell qs pr"
    and "list_all2 (\<lambda>(k, v) (k', y). k = k' \<and> reprRecords R lo h v y) qs (props res)"
    and "reprProto (reprRecords R lo h) pr (proto res)"
    and "reprRecords R lo h (SRef a) rs"
  shows "\<exists>qs' pr'. setProperty_store h x sheet (SRef a) = h[x := ObjectCell qs' pr']
     \<and> list_all2 (\<lambda>(k, v) (k', y). k = k' \<and> reprRecords R lo h v y) qs' (props (setSheet sheet rs res))
     \<and> reprProto (reprRecords R lo h) pr' (proto (setSheet sheet rs res))"
proof -
  have chain: "chainReachesSetter (length h) h pr \<longleftrightarrow> proto res \<noteq> NullPrototype"
  proof (cases "(reprRecords R lo h, pr, proto res)" rule: reprProto.cases)
    case (3 R' b y)
    then have "reprRecords R lo h (SRef b) y"
      using assms(4) by simp
    then obtain vs where "h ! b = ArrayCell vs"
      by (auto simp add: reprRecords_def reprArray_def split: cell.splits)
    moreover obtain m where "length h = Suc m"
      using assms(1) by (cases "length h") simp_all
    ultimately show ?thesis
      using 3 by simp
  qed (use assms(4) in auto)
  have none: "(map_of qs sheet = None) = (map_of (props res) sheet = None)"
    using assms(3) by (rule props_map_of_None)
  show ?thesis
  proof (cases "sheet = ''__proto__'' \<and> map_of qs sheet = None \<and> chainReachesSetter (length h) h pr")
    case True
    then have t: "sheet = ''__proto__''" "map_of qs sheet = None"
      "chainReachesSetter (length h) h pr"
      by blast+
    have "setProperty_store h x sheet (SRef a) = h[x := ObjectCell qs (ProtoRef a)]"
      using assms(2) t by (simp add: setProperty_store_def)
    moreover have "setSheet sheet rs res = Object (props res) (ValuePrototype rs)"
      using t chain none by (simp add: setSheet_def)
    ultimately show ?thesis
      using assms(3,5) by (intro exI [of _ qs] exI [of _ "ProtoRef a"]) simp
  next
    case False
    then have "setProperty_store h x sheet (SRef a)
        = h[x := ObjectCell (AList.update sheet (SRef a) qs) pr]"
      using assms(2) by (auto simp add: setProperty_store_def)
    moreover have "setSheet sheet rs res = Object (AList.update sheet rs (props res)) (proto res)"
      using False chain none by (auto simp add: setSheet_def)
    moreover have "list_all2 (\<lambda>(k, v) (k', y). k = k' \<and> reprRecords R lo h v y)
        (AList.update sheet (SRef a) qs) (AList.update sheet rs (props res))"
      using assms(3,5) by (rule props_update)
    ultimately show ?thesis
      using assms(4)
      by (intro exI [of _ "AList.update sheet (SRef a) qs"] exI [of _ pr]) simp
  qed
qed

lemma getProperty_kept:
  "take (length h0) h = h0 \<Longrightarrow> a < length h0 \<Longrightarrow> getProperty h (SRef a) key = getProperty h0 (SRef a) key"
  by (simp add: getProperty_def kept_nth)

lemma ownKeys_kept:
  "take (length h0) h = h0 \<Longrightarrow> a < length h0 \<Longrightarrow> ownKeys h (SRef a) = ownKeys h0 (SRef a)"
  by (simp add: ownKeys_def kept_nth)

section \<open>The loop over the sheets in the store\<close>

lemma sheetsLoop_store_refines:
  assumes "length h0 \<le> x" and "a0 < length h0"
  shows "take (length h0) h = h0 \<Longrightarrow> x < length h \<Longrightarrow> h ! x = ObjectCell qs pr \<Longrightarrow>
     list_all2 (\<lambda>(k, v) (k', y). k = k' \<and> reprRecords (repr h0) (Suc x) h v y) qs (props res) \<Longrightarrow>
     reprProto (reprRecords (repr h0) (Suc x) h) pr (proto res) \<Longrightarrow>
     list_all2 (\<lambda>key (k', g). key = k' \<and> repr h0 (getProperty h0 (SRef a0) key) g) keys es \<Longrightarrow>
     (case sheetsLoop reducer_ts res es of
        Inl e \<Rightarrow> \<exists>c t. sheetsLoop_store h (SRef a0) x keys = (Inl e, h[x := c] @ t)
      | Inr out \<Rightarrow>
          (\<exists>qs' pr' t. sheetsLoop_store h (SRef a0) x keys
               = (Inr (SRef x), h[x := ObjectCell qs' pr'] @ t)
             \<and> list_all2 (\<lambda>(k, v) (k', y). k = k'
                  \<and> reprRecords (repr h0) (Suc x) (h[x := ObjectCell qs' pr'] @ t) v y) qs' (props out)
             \<and> reprProto (reprRecords (repr h0) (Suc x) (h[x := ObjectCell qs' pr'] @ t)) pr'
                  (proto out)))"
proof (induction es arbitrary: keys h qs pr res)
  case Nil
  have "h[x := ObjectCell qs pr] @ [] = h"
    using Nil(3) list_update_id [of h x] by simp
  moreover have "keys = []"
    using Nil(6) by simp
  ultimately have "sheetsLoop_store h (SRef a0) x keys = (Inr (SRef x), h[x := ObjectCell qs pr] @ [])
      \<and> list_all2 (\<lambda>(k, v) (k', y). k = k'
           \<and> reprRecords (repr h0) (Suc x) (h[x := ObjectCell qs pr] @ []) v y) qs (props res)
      \<and> reprProto (reprRecords (repr h0) (Suc x) (h[x := ObjectCell qs pr] @ [])) pr (proto res)"
    using Nil(4,5) by simp
  then have "\<exists>qs' pr' t. sheetsLoop_store h (SRef a0) x keys
               = (Inr (SRef x), h[x := ObjectCell qs' pr'] @ t)
             \<and> list_all2 (\<lambda>(k, v) (k', y). k = k'
                  \<and> reprRecords (repr h0) (Suc x) (h[x := ObjectCell qs' pr'] @ t) v y) qs' (props res)
             \<and> reprProto (reprRecords (repr h0) (Suc x) (h[x := ObjectCell qs' pr'] @ t)) pr'
                  (proto res)"
    by (intro exI [of _ qs] exI [of _ pr] exI [of _ "[]"])
  then show ?case
    by simp
next
  case (Cons p es)
  obtain sheet grid where p: "p = (sheet, grid)"
    by (cases p)
  from Cons.prems(6) obtain keys' where keys: "keys = sheet # keys'"
    and data0: "repr h0 (getProperty h0 (SRef a0) sheet) grid"
    and rest: "list_all2 (\<lambda>key (k', g). key = k' \<and> repr h0 (getProperty h0 (SRef a0) key) g) keys' es"
    by (auto simp add: p list_all2_Cons2)
  have data: "repr h0 (getProperty h (SRef a0) sheet) grid"
    using data0 getProperty_kept [OF Cons.prems(1) assms(2)] by simp
  have same: "h[x := ObjectCell qs pr] = h"
    using Cons.prems(3) list_update_id [of h x] by simp
  note one = convertSheet_store_refines [OF Cons.prems(1) data, of sheet]
  show ?case
  proof (cases "convertSheet reducer_ts sheet grid")
    case (Inl e)
    then obtain t where "convertSheet_store h sheet (getProperty h (SRef a0) sheet) = (Inl e, h @ t)"
      using one by auto
    then have "sheetsLoop_store h (SRef a0) x keys = (Inl e, h[x := ObjectCell qs pr] @ t)"
      using same by (simp add: keys)
    then have "\<exists>c t. sheetsLoop_store h (SRef a0) x keys = (Inl e, h[x := c] @ t)"
      by blast
    then show ?thesis
      using Inl by (simp add: p)
  next
    case (Inr rs)
    then obtain a t1 where
      run1: "convertSheet_store h sheet (getProperty h (SRef a0) sheet) = (Inr (SRef a), h @ t1)"
      and new: "reprArray (reprObject (repr h0) (length h) (h @ t1)) (length h) (h @ t1) (SRef a) rs"
      using one by auto
    let ?h1 = "h @ t1"
    have "reprRecords (repr h0) (length h) ?h1 (SRef a) rs"
      using new by (simp add: reprRecords_def)
    then have new1: "reprRecords (repr h0) (Suc x) ?h1 (SRef a) rs"
      by (rule reprRecords_agree) (use Cons.prems(2) in simp_all)
    have grow: "\<And>v y. reprRecords (repr h0) (Suc x) h v y \<Longrightarrow> reprRecords (repr h0) (Suc x) ?h1 v y"
      by (erule reprRecords_agree) (simp_all add: nth_append)
    have ps1: "list_all2 (\<lambda>(k, v) (k', y). k = k' \<and> reprRecords (repr h0) (Suc x) ?h1 v y) qs (props res)"
      using Cons.prems(4) grow by (rule props_mono)
    have pr1: "reprProto (reprRecords (repr h0) (Suc x) ?h1) pr (proto res)"
      using Cons.prems(5) grow by (rule reprProto_mono)
    have x1: "x < length ?h1" and c1: "?h1 ! x = ObjectCell qs pr"
      using Cons.prems(2,3) by (simp_all add: nth_append)
    obtain qs2 pr2 where
      set: "setProperty_store ?h1 x sheet (SRef a) = ?h1[x := ObjectCell qs2 pr2]"
      and ps2: "list_all2 (\<lambda>(k, v) (k', y). k = k' \<and> reprRecords (repr h0) (Suc x) ?h1 v y) qs2
          (props (setSheet sheet rs res))"
      and pr2: "reprProto (reprRecords (repr h0) (Suc x) ?h1) pr2 (proto (setSheet sheet rs res))"
      using setSheet_store_refines [OF x1 c1 ps1 pr1 new1, of sheet] by blast
    let ?h2 = "?h1[x := ObjectCell qs2 pr2]"
    have upd: "\<And>v y. reprRecords (repr h0) (Suc x) ?h1 v y \<Longrightarrow> reprRecords (repr h0) (Suc x) ?h2 v y"
      by (erule reprRecords_agree) simp_all
    have f1: "take (length h0) ?h2 = h0"
      using kept_update [OF kept_append [OF Cons.prems(1)] assms(1)] .
    have f2: "x < length ?h2" and f3: "?h2 ! x = ObjectCell qs2 pr2"
      using x1 by simp_all
    have f4: "list_all2 (\<lambda>(k, v) (k', y). k = k' \<and> reprRecords (repr h0) (Suc x) ?h2 v y) qs2
          (props (setSheet sheet rs res))"
      using ps2 upd by (rule props_mono)
    have f5: "reprProto (reprRecords (repr h0) (Suc x) ?h2) pr2 (proto (setSheet sheet rs res))"
      using pr2 upd by (rule reprProto_mono)
    note later = Cons.IH [OF f1 f2 f3 f4 f5 rest]
    have step: "sheetsLoop_store h (SRef a0) x keys = sheetsLoop_store ?h2 (SRef a0) x keys'"
      using run1 set by (simp add: keys)
    have shape: "\<And>c t. ?h2[x := c] @ t = h[x := c] @ (t1 @ t)"
      using Cons.prems(2) by (simp add: list_update_append1)
    have pure: "sheetsLoop reducer_ts res (p # es) = sheetsLoop reducer_ts (setSheet sheet rs res) es"
      using Inr by (simp add: p)
    show ?thesis
    proof (cases "sheetsLoop reducer_ts (setSheet sheet rs res) es")
      case (Inl e)
      then obtain c t where "sheetsLoop_store ?h2 (SRef a0) x keys' = (Inl e, ?h2[x := c] @ t)"
        using later by auto
      then have "sheetsLoop_store h (SRef a0) x keys = (Inl e, h[x := c] @ (t1 @ t))"
        using step shape by simp
      then have "\<exists>c t. sheetsLoop_store h (SRef a0) x keys = (Inl e, h[x := c] @ t)"
        by blast
      then show ?thesis
        using Inl pure by simp
    next
      case out: (Inr out)
      then obtain qs' pr' t where
        run: "sheetsLoop_store ?h2 (SRef a0) x keys' = (Inr (SRef x), ?h2[x := ObjectCell qs' pr'] @ t)"
        and ps: "list_all2 (\<lambda>(k, v) (k', y). k = k'
             \<and> reprRecords (repr h0) (Suc x) (?h2[x := ObjectCell qs' pr'] @ t) v y) qs' (props out)"
        and pr: "reprProto (reprRecords (repr h0) (Suc x) (?h2[x := ObjectCell qs' pr'] @ t)) pr'
             (proto out)"
        using later by auto
      have "sheetsLoop_store h (SRef a0) x keys
          = (Inr (SRef x), h[x := ObjectCell qs' pr'] @ (t1 @ t))"
        using step run shape by simp
      moreover have "list_all2 (\<lambda>(k, v) (k', y). k = k'
             \<and> reprRecords (repr h0) (Suc x) (h[x := ObjectCell qs' pr'] @ (t1 @ t)) v y) qs' (props out)"
        using ps unfolding shape .
      moreover have "reprProto (reprRecords (repr h0) (Suc x) (h[x := ObjectCell qs' pr'] @ (t1 @ t))) pr'
             (proto out)"
        using pr unfolding shape .
      ultimately have "\<exists>qs' pr' t. sheetsLoop_store h (SRef a0) x keys
               = (Inr (SRef x), h[x := ObjectCell qs' pr'] @ t)
             \<and> list_all2 (\<lambda>(k, v) (k', y). k = k'
                  \<and> reprRecords (repr h0) (Suc x) (h[x := ObjectCell qs' pr'] @ t) v y) qs' (props out)
             \<and> reprProto (reprRecords (repr h0) (Suc x) (h[x := ObjectCell qs' pr'] @ t)) pr'
                  (proto out)"
        by (intro exI [of _ qs'] exI [of _ pr'] exI [of _ "t1 @ t"] conjI)
      then show ?thesis
        using out pure by simp
    qed
  qed
qed

section \<open>The names of the sheets\<close>

lemma decimal_snoc: "decimal (s @ [c]) = 10 * decimal s + digitVal c"
  by (simp add: decimal_def)

lemma digitVal_digitChar: "d < 10 \<Longrightarrow> digitVal (digitChar d) = d"
  by (simp add: digitVal_def digitChar_def)

lemma decimal_showNat: "decimal (showNat n) = n"
proof (induction n rule: showNat.induct)
  case (1 n)
  show ?case
  proof (cases "n < 10")
    case True
    then show ?thesis
      using decimal_snoc [of "[]" "digitChar n"]
      by (simp add: showNat.simps [of n] digitVal_digitChar decimal_def)
  next
    case False
    then show ?thesis
      using 1 by (simp add: showNat.simps [of n] decimal_snoc digitVal_digitChar)
  qed
qed

lemma entries_in_store:
  assumes "repr h v j" and "typeof j = ''object''" and "\<not> falsy j"
  shows "\<exists>a. v = SRef a \<and> a < length h
     \<and> list_all2 (\<lambda>key (k', g). key = k' \<and> repr h (getProperty h (SRef a) key) g)
          (ownKeys h (SRef a)) (entries j)"
proof (cases j)
  case (Arr xs)
  with assms(1) obtain a vs where v: "v = SRef a" and a: "a < length h"
    and c: "h ! a = ArrayCell vs" and rs: "list_all2 (repr h) vs xs"
    by (auto simp add: reprs_iff split: sval.splits cell.splits)
  have len: "length vs = length xs"
    using rs by (rule list_all2_lengthD)
  have "list_all2 (\<lambda>key (k', g). key = k' \<and> repr h (getProperty h (SRef a) key) g)
      (map showNat [0..<length vs]) (zip (map showNat [0..<length xs]) xs)"
  proof (rule list_all2_all_nthI)
    show "length (map showNat [0..<length vs]) = length (zip (map showNat [0..<length xs]) xs)"
      using len by simp
  next
    fix n
    assume "n < length (map showNat [0..<length vs])"
    then have n: "n < length vs"
      by simp
    then have "showNat n \<in> set (map showNat [0..<length vs])"
      by simp
    then have "getProperty h (SRef a) (showNat n) = vs ! n"
      using c by (simp add: getProperty_def decimal_showNat del: set_map set_upt)
    moreover have "repr h (vs ! n) (xs ! n)"
      using rs n by (simp add: list_all2_conv_all_nth)
    ultimately show "(\<lambda>key (k', g). key = k' \<and> repr h (getProperty h (SRef a) key) g)
        (map showNat [0..<length vs] ! n) (zip (map showNat [0..<length xs]) xs ! n)"
      using n len by simp
  qed
  then show ?thesis
    using v a c by (simp add: Arr ownKeys_def)
next
  case (Obj ps)
  with assms(1) obtain a qs where v: "v = SRef a" and a: "a < length h"
    and c: "h ! a = ObjectCell qs ProtoObject" and d: "distinct (map fst ps)"
    and rs: "list_all2 (\<lambda>(k, x) (k', y). k = k' \<and> repr h x y) qs ps"
    by (auto simp add: reprProps_iff split: sval.splits cell.splits)
  have len: "length qs = length ps"
    using rs by (rule list_all2_lengthD)
  have nth: "\<And>n. n < length qs \<Longrightarrow> fst (qs ! n) = fst (ps ! n) \<and> repr h (snd (qs ! n)) (snd (ps ! n))"
    using rs by (auto simp add: list_all2_conv_all_nth split_beta)
  have "map fst qs = map fst ps"
    using nth len by (simp add: list_eq_iff_nth_eq)
  then have dq: "distinct (map fst qs)"
    using d by simp
  have "list_all2 (\<lambda>key (k', g). key = k' \<and> repr h (getProperty h (SRef a) key) g) (map fst qs) ps"
  proof (rule list_all2_all_nthI)
    show "length (map fst qs) = length ps"
      using len by simp
  next
    fix n
    assume "n < length (map fst qs)"
    then have n: "n < length qs"
      by simp
    then have "(fst (qs ! n), snd (qs ! n)) \<in> set qs"
      by simp
    then have "map_of qs (fst (qs ! n)) = Some (snd (qs ! n))"
      using dq by (rule map_of_is_SomeI [rotated])
    then have "getProperty h (SRef a) (fst (qs ! n)) = snd (qs ! n)"
      using c by (simp add: getProperty_def)
    then show "(\<lambda>key (k', g). key = k' \<and> repr h (getProperty h (SRef a) key) g)
        (map fst qs ! n) (ps ! n)"
      using nth [OF n] n by (simp add: split_beta)
  qed
  then show ?thesis
    using v a c by (simp add: Obj ownKeys_def)
qed (use assms in auto)

section \<open>The whole conversion in the store\<close>

lemma reprSheetData_kept:
  assumes "take (length h) h' = h" and "reprSheetData lo h v out"
  shows "reprSheetData lo h' v out"
  using assms(2) unfolding reprSheetData_def
proof (rule reprObject_agree)
  show "length h \<le> length h'"
    using assms(1) by (rule kept_length)
  show "\<And>a. lo \<le> a \<Longrightarrow> a < length h \<Longrightarrow> h' ! a = h ! a"
    using kept_nth [OF assms(1)] by simp
  show "lo \<le> lo"
    by simp
  fix x y
  assume "reprRecords (repr h) lo h x y"
  then show "reprRecords (repr h') lo h' x y"
  proof (rule reprRecords_agree)
    show "length h \<le> length h'"
      using assms(1) by (rule kept_length)
    show "\<And>a. lo \<le> a \<Longrightarrow> a < length h \<Longrightarrow> h' ! a = h ! a"
      using kept_nth [OF assms(1)] by simp
    show "lo \<le> lo"
      by simp
    show "\<And>x y. repr h x y \<Longrightarrow> repr h' x y"
      using repr_kept [OF assms(1)] .
  qed
qed

lemma reprOutcome_kept:
  "take (length h) h' = h \<Longrightarrow> reprOutcome lo h r out \<Longrightarrow> reprOutcome lo h' r out"
  by (cases "(lo, h, r, out)" rule: reprOutcome.cases) (auto simp add: reprSheetData_kept)

text \<open>
  A run in the store does what \<open>convertToJson\<close> above does with the value that the
  argument is in that store; it changes no cell that was there, and what it returns
  is made of cells that were not.
\<close>

lemma convertToJson_store_refines:
  assumes "repr h v j"
  shows "\<exists>r h'. convertToJson_store h v = (r, h') \<and> take (length h) h' = h
     \<and> reprOutcome (length h) h' r (convertToJson j)"
proof (cases "falsy j \<or> typeof j \<noteq> ''object'' \<or> length (entries j) = 0")
  case True
  have "falsy_store v \<or> typeof_store v \<noteq> ''object'' \<or> length (ownKeys h v) = 0"
  proof (cases "falsy j \<or> typeof j \<noteq> ''object''")
    case True
    then show ?thesis
      using falsy_store_repr [OF assms] typeof_store_repr [OF assms] by auto
  next
    case False
    then obtain a where "v = SRef a"
      and "list_all2 (\<lambda>key (k', g). key = k' \<and> repr h (getProperty h (SRef a) key) g)
          (ownKeys h (SRef a)) (entries j)"
      using entries_in_store [OF assms] by blast
    then have "length (ownKeys h v) = length (entries j)"
      by (simp add: list_all2_lengthD)
    then show ?thesis
      using True False by simp
  qed
  then have "convertToJson_store h v = (Inr (SRef (length h)), h @ [ObjectCell [] ProtoObject])"
    by (auto simp add: convertToJson_store_def alloc_def)
  moreover have "convertToJson j = Inr (Object [] ObjectPrototype)"
    using True by (auto simp add: convertToJson_def convertToJsonWith_def)
  moreover have "reprSheetData (length h) (h @ [ObjectCell [] ProtoObject]) (SRef (length h))
      (Object [] ObjectPrototype)"
    by (simp add: reprSheetData_def reprObject_def)
  ultimately show ?thesis
    by simp
next
  case False
  then obtain a where v: "v = SRef a" and a: "a < length h"
    and keys: "list_all2 (\<lambda>key (k', g). key = k' \<and> repr h (getProperty h (SRef a) key) g)
          (ownKeys h (SRef a)) (entries j)"
    using entries_in_store [OF assms] by blast
  let ?x = "length h"
  let ?h1 = "h @ [ObjectCell [] ProtoObject]"
  have guard: "\<not> (falsy_store v \<or> typeof_store v \<noteq> ''object'' \<or> length (ownKeys h v) = 0)"
    using False falsy_store_repr [OF assms] typeof_store_repr [OF assms] keys
    by (auto simp add: v dest: list_all2_lengthD)
  have k1: "ownKeys ?h1 (SRef a) = ownKeys h (SRef a)"
    using a by (simp add: ownKeys_def nth_append)
  have run: "convertToJson_store h v = sheetsLoop_store ?h1 (SRef a) ?x (ownKeys h (SRef a))"
    using guard k1 by (simp add: convertToJson_store_def alloc_def v)
  have pure: "convertToJson j = sheetsLoop reducer_ts (Object [] ObjectPrototype) (entries j)"
    using False by (simp add: convertToJson_def convertToJsonWith_def)
  have f0: "length h \<le> ?x"
    by simp
  have f1: "take (length h) ?h1 = h" and f2: "?x < length ?h1"
    and f3: "?h1 ! ?x = ObjectCell [] ProtoObject"
    by simp_all
  have f4: "list_all2 (\<lambda>(k, v) (k', y). k = k' \<and> reprRecords (repr h) (Suc ?x) ?h1 v y) []
      (props (Object [] ObjectPrototype :: JsonSheetData))"
    and f5: "reprProto (reprRecords (repr h) (Suc ?x) ?h1) ProtoObject
      (proto (Object [] ObjectPrototype :: JsonSheetData))"
    by simp_all
  note loop = sheetsLoop_store_refines [OF f0 a f1 f2 f3 f4 f5 keys]
  show ?thesis
  proof (cases "sheetsLoop reducer_ts (Object [] ObjectPrototype) (entries j)")
    case (Inl e)
    then obtain c t where "sheetsLoop_store ?h1 (SRef a) ?x (ownKeys h (SRef a))
        = (Inl e, ?h1[?x := c] @ t)"
      using loop by auto
    then have "convertToJson_store h v = (Inl e, h @ ([c] @ t))"
      using run by simp
    then show ?thesis
      using Inl pure by simp
  next
    case (Inr out)
    then obtain qs' pr' t where
      r: "sheetsLoop_store ?h1 (SRef a) ?x (ownKeys h (SRef a))
        = (Inr (SRef ?x), ?h1[?x := ObjectCell qs' pr'] @ t)"
      and ps: "list_all2 (\<lambda>(k, v) (k', y). k = k'
           \<and> reprRecords (repr h) (Suc ?x) (?h1[?x := ObjectCell qs' pr'] @ t) v y) qs' (props out)"
      and pr: "reprProto (reprRecords (repr h) (Suc ?x) (?h1[?x := ObjectCell qs' pr'] @ t)) pr'
           (proto out)"
      using loop by auto
    let ?H = "h @ ([ObjectCell qs' pr'] @ t)"
    have final: "?h1[?x := ObjectCell qs' pr'] @ t = ?H"
      by simp
    have keep: "take (length h) ?H = h"
      by simp
    have weak: "\<And>v y. reprRecords (repr h) (Suc ?x) ?H v y \<Longrightarrow> reprRecords (repr ?H) ?x ?H v y"
    proof (erule reprRecords_agree)
      show "\<And>x y. repr h x y \<Longrightarrow> repr ?H x y"
        using repr_kept [OF keep] .
    qed simp_all
    have "list_all2 (\<lambda>(k, v) (k', y). k = k' \<and> reprRecords (repr ?H) ?x ?H v y) qs' (props out)"
      using ps [unfolded final] weak by (rule props_mono)
    moreover have "reprProto (reprRecords (repr ?H) ?x ?H) pr' (proto out)"
      using pr [unfolded final] weak by (rule reprProto_mono)
    ultimately have "reprSheetData ?x ?H (SRef ?x) out"
      by (simp add: reprSheetData_def reprObject_def nth_append)
    moreover have "convertToJson_store h v = (Inr (SRef ?x), ?H)"
      using run r final by simp
    ultimately show ?thesis
      using Inr pure by simp
  qed
qed

section \<open>Two applications to the same argument\<close>

lemmas store_eval = convertToJson_store_def convertSheet_store_def
  mapRows_store_def rowToRecord_store_def reducer_store_def
  validateHeaders_store_def headersLoop_store.simps setAdd_def setHas_def setProperty_store_def
  getProperty_def ownKeys_def headerAt_store_def elementsAt_def isArray_store_def alloc_def

lemma convertToJson_store_example:
  "convertToJson_store
     [ArrayCell [SStr ''string'', SStr ''b''], ArrayCell [SStr ''true'', SStr ''x''],
      ArrayCell [SRef 0, SRef 1], ArrayCell [],
      ObjectCell [(''S'', SRef 2), (''E'', SRef 3)] ProtoObject] (SRef 4)
   = (Inr (SRef 5),
      [ArrayCell [SStr ''string'', SStr ''b''], ArrayCell [SStr ''true'', SStr ''x''],
       ArrayCell [SRef 0, SRef 1], ArrayCell [],
       ObjectCell [(''S'', SRef 2), (''E'', SRef 3)] ProtoObject,
       ObjectCell [(''S'', SRef 8), (''E'', SRef 10)] ProtoObject,
       ArrayCell [SRef 1], SetCell [SStr ''string'', SStr ''b''], ArrayCell [SRef 9],
       ObjectCell [(''string'', SBool True)] ProtoObject, ArrayCell []])"
  by (simp add: store_eval header_eval text_eval case_eval nth_append)

text \<open>
  C9. Let the argument be the JSON value \<open>j\<close> in the store \<open>h\<close>. Two applications
  to that argument, the second in the store that the first has left, both have the
  outcome of \<open>convertToJson j\<close>: both raise the same error, or both return an object
  that is the same \<open>JsonSheetData\<close>, sheet by sheet, record by record and property by
  property, the first made of cells that the first application has allocated, the second
  of cells that the second has. Neither application changes a cell that was there before
  it, so the argument is still \<open>j\<close> afterwards.
\<close>

theorem two_applications_equal:
  assumes "repr h spreadsheetData j"
  shows "\<exists>r1 h1 r2 h2.
      convertToJson_store h spreadsheetData = (r1, h1)
    \<and> convertToJson_store h1 spreadsheetData = (r2, h2)
    \<and> take (length h) h1 = h \<and> take (length h1) h2 = h1
    \<and> repr h2 spreadsheetData j
    \<and> reprOutcome (length h) h2 r1 (convertToJson j)
    \<and> reprOutcome (length h1) h2 r2 (convertToJson j)"
proof -
  obtain r1 h1 where run1: "convertToJson_store h spreadsheetData = (r1, h1)"
    and keep1: "take (length h) h1 = h"
    and out1: "reprOutcome (length h) h1 r1 (convertToJson j)"
    using convertToJson_store_refines [OF assms] by blast
  have arg1: "repr h1 spreadsheetData j"
    using keep1 assms by (rule repr_kept)
  obtain r2 h2 where run2: "convertToJson_store h1 spreadsheetData = (r2, h2)"
    and keep2: "take (length h1) h2 = h1"
    and out2: "reprOutcome (length h1) h2 r2 (convertToJson j)"
    using convertToJson_store_refines [OF arg1] by blast
  have "repr h2 spreadsheetData j"
    using keep2 arg1 by (rule repr_kept)
  moreover have "reprOutcome (length h) h2 r1 (convertToJson j)"
    using keep2 out1 by (rule reprOutcome_kept)
  ultimately show ?thesis
    using run1 run2 keep1 keep2 out2 by blast
qed

theorem two_applications_equal_witness:
  "repr [ArrayCell [SStr ''string''], ArrayCell [SStr ''true''], ArrayCell [SRef 0, SRef 1],
         ObjectCell [(''S'', SRef 2)] ProtoObject]
        (SRef 3) (Obj [(''S'', Arr [Arr [Str ''string''], Arr [Str ''true'']])])
   \<and> (\<exists>r1 h1 r2 h2.
        convertToJson_store
          [ArrayCell [SStr ''string''], ArrayCell [SStr ''true''], ArrayCell [SRef 0, SRef 1],
           ObjectCell [(''S'', SRef 2)] ProtoObject] (SRef 3) = (r1, h1)
      \<and> convertToJson_store h1 (SRef 3) = (r2, h2)
      \<and> take 4 h1 = [ArrayCell [SStr ''string''], ArrayCell [SStr ''true''],
           ArrayCell [SRef 0, SRef 1], ObjectCell [(''S'', SRef 2)] ProtoObject]
      \<and> take (length h1) h2 = h1
      \<and> reprOutcome 4 h2 r1
           (convertToJson (Obj [(''S'', Arr [Arr [Str ''string''], Arr [Str ''true'']])]))
      \<and> reprOutcome (length h1) h2 r2
           (convertToJson (Obj [(''S'', Arr [Arr [Str ''string''], Arr [Str ''true'']])])))"
proof -
  have arg: "repr [ArrayCell [SStr ''string''], ArrayCell [SStr ''true''], ArrayCell [SRef 0, SRef 1],
         ObjectCell [(''S'', SRef 2)] ProtoObject]
        (SRef 3) (Obj [(''S'', Arr [Arr [Str ''string''], Arr [Str ''true'']])])"
    by simp
  have four: "length [ArrayCell [SStr ''string''], ArrayCell [SStr ''true''],
      ArrayCell [SRef 0, SRef 1], ObjectCell [(''S'', SRef 2)] ProtoObject] = 4"
    by simp
  show ?thesis
    using arg two_applications_equal [OF arg, unfolded four] by blast
qed

end
